theory Spec2Isabelle
  imports Main "HOL-Library.Sublist" "HOL-Library.AList"
begin

section \<open>Strings and regular expressions\<close>

text \<open>
  A Go \<^verbatim>\<open>string\<close> is a sequence of bytes, and so is an Isabelle \<^typ>\<open>string\<close>
  (a list of 8-bit characters). The two patterns of \<^verbatim>\<open>main.go\<close> are written in the
  syntax of Go's \<^verbatim>\<open>regexp\<close> package; the constructors below are the ones they use.
  A character class is read on bytes: a byte of a multi-byte UTF-8 sequence, or an invalid
  byte (which the package reads as U+FFFD, one byte wide), is outside every ASCII set, so it
  belongs to a negated set and to no positive one. In both patterns every set that can hold
  such a byte stands under \<^verbatim>\<open>+\<close> between ASCII delimiters, so a run of runes of the set
  is a run of bytes of the set.
\<close>

datatype regex =
    Lit char
  | Set "char list"
  | NSet "char list"
  | Cat regex regex
  | Alt regex regex
  | Quest regex
  | Plus regex

text \<open>
  The package promises the match a backtracking search finds first (leftmost-first): in an
  alternation the left branch is preferred, \<^verbatim>\<open>?\<close> and \<^verbatim>\<open>+\<close> are greedy. The search
  is written with a continuation for the remainder of the pattern; it returns the input left
  after the match. An iteration of \<^verbatim>\<open>+\<close> that consumes nothing is not repeated.
\<close>

fun backtrack :: "regex \<Rightarrow> string \<Rightarrow> (string \<Rightarrow> string option) \<Rightarrow> string option" where
  "backtrack (Lit c) s k = (case s of [] \<Rightarrow> None | x # xs \<Rightarrow> if x = c then k xs else None)"
| "backtrack (Set cs) s k = (case s of [] \<Rightarrow> None | x # xs \<Rightarrow> if x \<in> set cs then k xs else None)"
| "backtrack (NSet cs) s k = (case s of [] \<Rightarrow> None | x # xs \<Rightarrow> if x \<in> set cs then None else k xs)"
| "backtrack (Cat r1 r2) s k = backtrack r1 s (\<lambda>s'. backtrack r2 s' k)"
| "backtrack (Alt r1 r2) s k =
     (case backtrack r1 s k of Some t \<Rightarrow> Some t | None \<Rightarrow> backtrack r2 s k)"
| "backtrack (Quest r) s k =
     (case backtrack r s k of Some t \<Rightarrow> Some t | None \<Rightarrow> k s)"
| "backtrack (Plus r) s k =
     backtrack r s (\<lambda>s'.
       case (if length s' < length s then backtrack (Plus r) s' k else None) of
         Some t \<Rightarrow> Some t
       | None \<Rightarrow> k s')"

definition matchAt :: "regex \<Rightarrow> string \<Rightarrow> string option" where
  "matchAt re s = backtrack re s Some"

text \<open>
  \<^verbatim>\<open>ReplaceAllString(src, repl)\<close>: the leftmost match is looked for from the current
  position, the bytes before it are copied, the replacement is written, and the search goes
  on after the match. Neither replacement of this program contains \<^verbatim>\<open>$\<close>, so it is
  written as it is. An empty match writes the replacement and copies one byte; neither
  pattern of this program matches the empty string.
\<close>

fun replaceAllString :: "regex \<Rightarrow> string \<Rightarrow> string \<Rightarrow> string" where
  "replaceAllString re [] repl = (case matchAt re [] of None \<Rightarrow> [] | Some _ \<Rightarrow> repl)"
| "replaceAllString re (c # cs) repl =
     (case matchAt re (c # cs) of
        None \<Rightarrow> c # replaceAllString re cs repl
      | Some rest \<Rightarrow>
          if length rest < length (c # cs) then repl @ replaceAllString re rest repl
          else repl @ c # replaceAllString re cs repl)"

section \<open>The patterns of the text normalizer\<close>

definition digit :: regex where
  "digit = Set ''0123456789''"

definition whitespace :: regex where
  "whitespace = Set [CHR 0x09, CHR 0x0A, CHR 0x0C, CHR 0x0D, CHR '' '']"

fun lits :: "string \<Rightarrow> regex" where
  "lits [] = Quest (Set [])"
| "lits [c] = Lit c"
| "lits (c # cs) = Cat (Lit c) (lits cs)"

text \<open>\<^verbatim>\<open>(<S>\d+</S>|</?[^ai <>]+/?>)\<close>\<close>

definition textCleanRegex :: regex where
  "textCleanRegex =
     Alt (Cat (lits ''<S>'') (Cat (Plus digit) (lits ''</S>'')))
         (Cat (Lit CHR ''<'') (Cat (Quest (Lit CHR ''/''))
           (Cat (Plus (NSet ''ai <>'')) (Cat (Quest (Lit CHR ''/'')) (Lit CHR ''>'')))))"

text \<open>\<^verbatim>\<open>\s+\<close>\<close>

definition whitespaceRegex :: regex where
  "whitespaceRegex = Plus whitespace"

section \<open>strings.TrimSpace\<close>

text \<open>
  \<^verbatim>\<open>strings.TrimSpace\<close> removes the leading and the trailing runes that
  \<^verbatim>\<open>unicode.IsSpace\<close> accepts: the six ASCII characters tab, line feed, vertical tab,
  form feed, carriage return and space, and U+0085, U+00A0, U+1680, U+2000 to U+200A, U+2028,
  U+2029, U+202F, U+205F and U+3000. UTF-8 encodes a rune in one way only, and the decoder
  reads an invalid byte as U+FFFD, which is no space; so a string begins (ends) with a space
  rune exactly when it begins (ends) with one of the byte sequences below.
\<close>

definition spaceRunes :: "string list" where
  "spaceRunes =
     map (\<lambda>c. [c]) [CHR 0x09, CHR 0x0A, CHR 0x0B, CHR 0x0C, CHR 0x0D, CHR '' ''] @
     [[CHR 0xC2, CHR 0x85], [CHR 0xC2, CHR 0xA0], [CHR 0xE1, CHR 0x9A, CHR 0x80]] @
     map (\<lambda>c. [CHR 0xE2, CHR 0x80, c])
       [CHR 0x80, CHR 0x81, CHR 0x82, CHR 0x83, CHR 0x84, CHR 0x85, CHR 0x86, CHR 0x87,
        CHR 0x88, CHR 0x89, CHR 0x8A, CHR 0xA8, CHR 0xA9, CHR 0xAF] @
     [[CHR 0xE2, CHR 0x81, CHR 0x9F], [CHR 0xE3, CHR 0x80, CHR 0x80]]"

text \<open>The width of the space rune a string begins with, or ends with; 0 when there is none.\<close>

definition leadingSpace :: "string \<Rightarrow> nat" where
  "leadingSpace s = (case find (\<lambda>e. prefix e s) spaceRunes of None \<Rightarrow> 0 | Some e \<Rightarrow> length e)"

definition trailingSpace :: "string \<Rightarrow> nat" where
  "trailingSpace s = (case find (\<lambda>e. suffix e s) spaceRunes of None \<Rightarrow> 0 | Some e \<Rightarrow> length e)"

lemma leadingSpace_le: "leadingSpace s \<le> length s"
  by (auto simp: leadingSpace_def find_Some_iff prefix_def split: option.splits)

lemma trailingSpace_le: "trailingSpace s \<le> length s"
  by (auto simp: trailingSpace_def find_Some_iff suffix_def split: option.splits)

function TrimLeft :: "string \<Rightarrow> string" where
  "TrimLeft s = (if leadingSpace s = 0 then s else TrimLeft (drop (leadingSpace s) s))"
  by pat_completeness auto
termination
proof (relation "measure length")
  fix s :: string
  assume "leadingSpace s \<noteq> 0"
  with leadingSpace_le [of s] show "(drop (leadingSpace s) s, s) \<in> measure length"
    by simp
qed simp

function TrimRight :: "string \<Rightarrow> string" where
  "TrimRight s =
     (if trailingSpace s = 0 then s else TrimRight (take (length s - trailingSpace s) s))"
  by pat_completeness auto
termination
proof (relation "measure length")
  fix s :: string
  assume "trailingSpace s \<noteq> 0"
  with trailingSpace_le [of s] show "(take (length s - trailingSpace s) s, s) \<in> measure length"
    by simp
qed simp

definition TrimSpace :: "string \<Rightarrow> string" where
  "TrimSpace s = TrimRight (TrimLeft s)"

section \<open>The text normalizer\<close>

definition clearText :: "string \<Rightarrow> string" where
  "clearText text =
     (let cleaned = replaceAllString textCleanRegex text '''';
          cleaned = TrimSpace cleaned;
          cleaned = replaceAllString whitespaceRegex cleaned '' ''
      in cleaned)"

abbreviation stripped :: "string \<Rightarrow> string" where
  "stripped s \<equiv> replaceAllString textCleanRegex s ''''"

abbreviation collapsed :: "string \<Rightarrow> string" where
  "collapsed s \<equiv> replaceAllString whitespaceRegex s '' ''"

section \<open>What the patterns match, said without the search\<close>

text \<open>
  The three character sets of the patterns as predicates, and the match of each alternative
  of \<^verbatim>\<open>textCleanRegex\<close> at the head of a string, written with \<^const>\<open>takeWhile\<close> and
  \<^const>\<open>dropWhile\<close>. They are proved equal to the backtracking search below
  (\<open>matchAt_textCleanRegex\<close>, \<open>matchAt_whitespaceRegex\<close>).
\<close>

definition tagChar :: "char \<Rightarrow> bool" where
  "tagChar c = (c \<notin> set ''ai <>'')"

definition digitChar :: "char \<Rightarrow> bool" where
  "digitChar c = (c \<in> set ''0123456789'')"

definition wsChar :: "char \<Rightarrow> bool" where
  "wsChar c = (c \<in> set [CHR 0x09, CHR 0x0A, CHR 0x0C, CHR 0x0D, CHR '' ''])"

definition markerAt :: "string \<Rightarrow> string option" where
  "markerAt s =
     (if prefix ''<S>'' s \<and> takeWhile digitChar (drop 3 s) \<noteq> [] \<and>
         prefix ''</S>'' (dropWhile digitChar (drop 3 s))
      then Some (drop 4 (dropWhile digitChar (drop 3 s))) else None)"

definition closing :: "string \<Rightarrow> string option" where
  "closing s = (case s of [] \<Rightarrow> None | d # r \<Rightarrow> if d = CHR ''>'' then Some r else None)"

definition tagTail :: "string \<Rightarrow> string option" where
  "tagTail t = (if takeWhile tagChar t = [] then None else closing (dropWhile tagChar t))"

definition tagAt :: "string \<Rightarrow> string option" where
  "tagAt s = (case s of [] \<Rightarrow> None | c # s1 \<Rightarrow> if c = CHR ''<'' then tagTail s1 else None)"

definition closeTag :: "string \<Rightarrow> string option" where
  "closeTag s = backtrack (Cat (Quest (Lit CHR ''/'')) (Lit CHR ''>'')) s Some"


definition bareTag :: "string \<Rightarrow> bool" where
  "bareTag t = (2 < length t \<and> hd t = CHR ''<'' \<and> last t = CHR ''>'' \<and>
     list_all tagChar (butlast (tl t)))"

definition spacedTag :: "string \<Rightarrow> bool" where
  "spacedTag t = (2 < length t \<and> hd t = CHR ''<'' \<and> last t = CHR ''>'' \<and>
     CHR '' '' \<in> set (butlast (tl t)) \<and> CHR ''<'' \<notin> set (butlast (tl t)) \<and>
     CHR ''>'' \<notin> set (butlast (tl t)))"

text \<open>
  The bare tags \<^verbatim>\<open><S>\<close> and \<^verbatim>\<open></S>\<close> are also the two ends of a marker. A bare tag
  \<open>t\<close> between \<open>u\<close> and \<open>v\<close> is inside a marker when it is \<^verbatim>\<open></S>\<close> and \<open>u\<close> ends with
  \<^verbatim>\<open><S>\<close> and digits, or it is \<^verbatim>\<open><S>\<close> and \<open>v\<close> begins with digits and \<^verbatim>\<open></S>\<close>.
\<close>

definition bareOpen :: "string \<Rightarrow> bool" where
  "bareOpen w = (prefix ''<S>'' w \<and> drop 3 w \<noteq> [] \<and> list_all digitChar (drop 3 w))"

definition opened :: "string \<Rightarrow> bool" where
  "opened u = (takeWhile digitChar (rev u) \<noteq> [] \<and> prefix ''>S<'' (dropWhile digitChar (rev u)))"



text \<open>Two neighbouring characters of the set \<^verbatim>\<open>\s\<close>.\<close>

fun wsRun :: "string \<Rightarrow> bool" where
  "wsRun (a # b # r) = (wsChar a \<and> wsChar b \<or> wsRun (b # r))"
| "wsRun _ = False"

text \<open>
  Two neighbouring runes that \<^verbatim>\<open>unicode.IsSpace\<close> accepts, the notion of white space
  \<^verbatim>\<open>strings.TrimSpace\<close> works with.
\<close>

fun spaceRun :: "string \<Rightarrow> bool" where
  "spaceRun [] = False"
| "spaceRun (c # cs) =
     (leadingSpace (c # cs) \<noteq> 0 \<and> leadingSpace (drop (leadingSpace (c # cs)) (c # cs)) \<noteq> 0
      \<or> spaceRun cs)"



text \<open>A bare tag begins at some position of the string.\<close>

fun hasBareTag :: "string \<Rightarrow> bool" where
  "hasBareTag [] = False"
| "hasBareTag (c # cs) = (tagAt (c # cs) \<noteq> None \<or> hasBareTag cs)"

section \<open>encoding/json\<close>

text \<open>
  The values the handlers encode, and the encoder of \<^verbatim>\<open>encoding/json\<close> on them. A string
  is written between double quotes; \<^verbatim>\<open>"\<close> and \<^verbatim>\<open>\\<close> get a backslash, the control
  characters are escaped, and with \<^verbatim>\<open>escapeHTML\<close> (the default of a new encoder, switched
  off by \<^verbatim>\<open>SetEscapeHTML(false)\<close>) so are \<^verbatim>\<open><\<close>, \<^verbatim>\<open>>\<close> and \<^verbatim>\<open>&\<close>. Outside ASCII,
  a valid UTF-8 sequence is copied, except U+2028 and U+2029, and an invalid byte is written
  as the escape of U+FFFD. The keys of a Go map are written in sorted order, the fields of a struct
  in the order of their declaration; \<^verbatim>\<open>Encode\<close> ends the value with a line feed.
\<close>

datatype json = JString string | JInt int | JArray "json list" | JObject "(string \<times> json) list"

definition hex :: "nat \<Rightarrow> char" where
  "hex n = ''0123456789abcdef'' ! (n mod 16)"

definition continuation :: "char \<Rightarrow> bool" where
  "continuation b = (0x80 \<le> (of_char b :: nat) \<and> (of_char b :: nat) \<le> 0xBF)"

text \<open>The width of the UTF-8 sequence a string begins with; 0 when its first byte is invalid.\<close>

definition between :: "nat \<Rightarrow> char \<Rightarrow> nat \<Rightarrow> bool" where
  "between lo b hi = (lo \<le> (of_char b :: nat) \<and> (of_char b :: nat) \<le> hi)"

fun runeWidth :: "string \<Rightarrow> nat" where
  "runeWidth [] = 0"
| "runeWidth (b # bs) =
     (let n = (of_char b :: nat) in
      if n < 0x80 then 1
      else if between 0xC2 b 0xDF then
        (case bs of b1 # _ \<Rightarrow> if continuation b1 then 2 else 0 | _ \<Rightarrow> 0)
      else if between 0xE0 b 0xEF then
        (case bs of b1 # b2 # _ \<Rightarrow>
           if between (if n = 0xE0 then 0xA0 else 0x80) b1 (if n = 0xED then 0x9F else 0xBF)
              \<and> continuation b2 then 3 else 0
         | _ \<Rightarrow> 0)
      else if between 0xF0 b 0xF4 then
        (case bs of b1 # b2 # b3 # _ \<Rightarrow>
           if between (if n = 0xF0 then 0x90 else 0x80) b1 (if n = 0xF4 then 0x8F else 0xBF)
              \<and> continuation b2 \<and> continuation b3 then 4 else 0
         | _ \<Rightarrow> 0)
      else 0)"

text \<open>The two tables of the encoder: the ASCII bytes written as they are, without and with
  \<^verbatim>\<open>escapeHTML\<close>.\<close>

definition safeSet :: "char \<Rightarrow> bool" where
  "safeSet b = (0x20 \<le> (of_char b :: nat) \<and> (of_char b :: nat) < 0x80 \<and> b \<noteq> CHR 0x22 \<and> b \<noteq> CHR 0x5C)"

definition htmlSafeSet :: "char \<Rightarrow> bool" where
  "htmlSafeSet b = (safeSet b \<and> b \<notin> set ''<>&'')"

definition escapeAscii :: "bool \<Rightarrow> char \<Rightarrow> string" where
  "escapeAscii escapeHTML b =
     (if htmlSafeSet b \<or> \<not> escapeHTML \<and> safeSet b then [b]
      else if b = CHR 0x5C \<or> b = CHR 0x22 then [CHR 0x5C, b]
      else if b = CHR 0x08 then [CHR 0x5C, CHR ''b'']
      else if b = CHR 0x0C then [CHR 0x5C, CHR ''f'']
      else if b = CHR 0x0A then [CHR 0x5C, CHR ''n'']
      else if b = CHR 0x0D then [CHR 0x5C, CHR ''r'']
      else if b = CHR 0x09 then [CHR 0x5C, CHR ''t'']
      else [CHR 0x5C, CHR ''u'', CHR ''0'', CHR ''0'', hex (of_char b div 16), hex (of_char b mod 16)])"

fun appendString :: "bool \<Rightarrow> string \<Rightarrow> string" where
  "appendString escapeHTML [] = []"
| "appendString escapeHTML (b # bs) =
     (if (of_char b :: nat) < 0x80 then escapeAscii escapeHTML b @ appendString escapeHTML bs
      else if runeWidth (b # bs) = 0 then
        [CHR 0x5C, CHR ''u'', CHR ''f'', CHR ''f'', CHR ''f'', CHR ''d''] @ appendString escapeHTML bs
      else if take 3 (b # bs) = [CHR 0xE2, CHR 0x80, CHR 0xA8] then
        [CHR 0x5C, CHR ''u'', CHR ''2'', CHR ''0'', CHR ''2'', CHR ''8''] @
        appendString escapeHTML (drop 2 bs)
      else if take 3 (b # bs) = [CHR 0xE2, CHR 0x80, CHR 0xA9] then
        [CHR 0x5C, CHR ''u'', CHR ''2'', CHR ''0'', CHR ''2'', CHR ''9''] @
        appendString escapeHTML (drop 2 bs)
      else take (runeWidth (b # bs)) (b # bs) @
        appendString escapeHTML (drop (runeWidth (b # bs) - 1) bs))"

definition quoted :: "bool \<Rightarrow> string \<Rightarrow> string" where
  "quoted escapeHTML s = [CHR 0x22] @ appendString escapeHTML s @ [CHR 0x22]"

fun decimal :: "nat \<Rightarrow> string" where
  "decimal n = (if n < 10 then [hex n] else decimal (n div 10) @ [hex (n mod 10)])"

definition itoa :: "int \<Rightarrow> string" where
  "itoa i = (if i < 0 then CHR ''-'' # decimal (nat (- i)) else decimal (nat i))"

fun commas :: "string list \<Rightarrow> string" where
  "commas [] = []"
| "commas [x] = x"
| "commas (x # xs) = x @ '','' @ commas xs"

fun marshal :: "bool \<Rightarrow> json \<Rightarrow> string" where
  "marshal escapeHTML (JString s) = quoted escapeHTML s"
| "marshal escapeHTML (JInt i) = itoa i"
| "marshal escapeHTML (JArray xs) = ''['' @ commas (map (marshal escapeHTML) xs) @ '']''"
| "marshal escapeHTML (JObject kvs) =
     ''{'' @ commas (map (\<lambda>kv. quoted escapeHTML (fst kv) @ '':'' @ marshal escapeHTML (snd kv)) kvs)
       @ ''}''"

definition Encode :: "bool \<Rightarrow> json \<Rightarrow> string" where
  "Encode escapeHTML v = marshal escapeHTML v @ [CHR 0x0A]"

text \<open>
  The three characters \<^verbatim>\<open>escapeHTML\<close> is about, and the string payloads of a value: its
  strings and the keys of its objects, in the order in which the encoder writes them.
\<close>

definition htmlChar :: "char \<Rightarrow> bool" where
  "htmlChar c = (c \<in> set ''<>&'')"

fun payload :: "json \<Rightarrow> string" where
  "payload (JString s) = s"
| "payload (JInt i) = []"
| "payload (JArray xs) = concat (map payload xs)"
| "payload (JObject kvs) = concat (map (\<lambda>kv. fst kv @ payload (snd kv)) kvs)"

section \<open>The HTTP handlers\<close>

record request =
  Method :: string
  Path :: string

text \<open>
  An \<^verbatim>\<open>http.ResponseWriter\<close>: the header map, the status (none until it is written; the
  first write without one sends 200) and the bytes written.
\<close>

record response =
  header :: "(string \<times> string) list"
  status :: "nat option"
  body :: string

definition newResponse :: response where
  "newResponse = \<lparr>header = [], status = None, body = []\<rparr>"

definition headerSet :: "string \<Rightarrow> string \<Rightarrow> response \<Rightarrow> response" where
  "headerSet k v w = w\<lparr>header := AList.update k v (header w)\<rparr>"

definition WriteHeader :: "nat \<Rightarrow> response \<Rightarrow> response" where
  "WriteHeader code w = (if status w = None then w\<lparr>status := Some code\<rparr> else w)"

definition Write :: "string \<Rightarrow> response \<Rightarrow> response" where
  "Write bs w = (let w' = WriteHeader 200 w in w'\<lparr>body := body w' @ bs\<rparr>)"

text \<open>
  A Go map is an association list here; the order of the list stands for the order in which
  an iteration happens to visit the map, which Go leaves open.
\<close>

definition translations_map :: "(string \<times> string) list" where
  "translations_map = [(''KJV'', ''assets/KJV+.Sqlite3''), (''RST'', ''assets/RST+.Sqlite3'')]"

record VerseResponse =
  Translation :: string
  BookNumber :: int
  BookTitle :: string
  BookTitleShort :: string
  Chapter :: int
  Verse :: int
  Text :: string

definition verseJson :: "VerseResponse \<Rightarrow> json" where
  "verseJson v = JObject
     [(''translation'', JString (Translation v)), (''book_number'', JInt (BookNumber v)),
      (''book_title'', JString (BookTitle v)), (''book_title_short'', JString (BookTitleShort v)),
      (''chapter'', JInt (Chapter v)), (''verse'', JInt (Verse v)), (''text'', JString (Text v))]"

definition errorJson :: "string \<Rightarrow> json" where
  "errorJson message = JObject [(''error'', JString message)]"

text \<open>
  The row the query selects: \<^verbatim>\<open>book_number, chapter, verse, text, short_name, long_name\<close>.
  What \<^verbatim>\<open>QueryRow(query).Scan(...)\<close> gives on a handle (an error, or the row that
  \<^verbatim>\<open>ORDER BY RANDOM() LIMIT 1\<close> picked) is a parameter of the handler.
\<close>

record row =
  row_book_number :: int
  row_chapter :: int
  row_verse :: int
  row_text :: string
  row_short_name :: string
  row_long_name :: string

text \<open>What a handler does to the database: it looks a name up in the pool, it queries a handle.\<close>

datatype 'db access = PoolLookup string | Query 'db

text \<open>\<^verbatim>\<open>strings.Trim(s, "/")\<close> and \<^verbatim>\<open>strings.Split(s, "/")\<close>, for a separator of one byte.\<close>

definition Trim :: "string \<Rightarrow> char \<Rightarrow> string" where
  "Trim s c = rev (dropWhile (\<lambda>x. x = c) (rev (dropWhile (\<lambda>x. x = c) s)))"

fun Split :: "string \<Rightarrow> char \<Rightarrow> string list" where
  "Split [] c = [[]]"
| "Split (x # xs) c =
     (if x = c then [] # Split xs c
      else (case Split xs c of p # ps \<Rightarrow> (x # p) # ps | [] \<Rightarrow> [[x]]))"

definition respondWithError :: "response \<Rightarrow> string \<Rightarrow> nat \<Rightarrow> response" where
  "respondWithError w message statusCode =
     (let w = headerSet ''Content-Type'' ''application/json'' w;
          w = WriteHeader statusCode w
      in Write (Encode True (errorJson message)) w)"

definition getRandomVerseHandler ::
  "(string \<times> 'db) list \<Rightarrow> ('db \<Rightarrow> string + row) \<Rightarrow> response \<Rightarrow> request
     \<Rightarrow> response \<times> 'db access list" where
  "getRandomVerseHandler dbPool queryRow w r =
     (let parts = Split (Trim (Path r) CHR ''/'') CHR ''/'' in
      if length parts \<noteq> 2 then (respondWithError w ''Invalid URL format'' 400, [])
      else
        let translationName = parts ! 1 in
        if map_of translations_map translationName = None then
          (respondWithError w (''Translation '' @ [CHR 0x27] @ translationName @ [CHR 0x27] @ '' not found'') 404, [])
        else
          (case map_of dbPool translationName of
             None \<Rightarrow>
               (respondWithError w
                  (''Database for translation '' @ [CHR 0x27] @ translationName @ [CHR 0x27] @
                   '' is not available'') 503,
                [PoolLookup translationName])
           | Some db \<Rightarrow>
               (case queryRow db of
                  Inl err \<Rightarrow>
                    (respondWithError w ''Failed to retrieve verse'' 500,
                     [PoolLookup translationName, Query db])
                | Inr found \<Rightarrow>
                    (let verse = \<lparr>Translation = translationName, BookNumber = row_book_number found,
                           BookTitle = row_long_name found, BookTitleShort = row_short_name found,
                           Chapter = row_chapter found, Verse = row_verse found,
                           Text = clearText (row_text found)\<rparr>;
                         w = headerSet ''Content-Type'' ''application/json'' w
                     in (Write (Encode False (verseJson verse)) w,
                         [PoolLookup translationName, Query db])))))"

definition availableTranslations :: "(string \<times> 'db) list \<Rightarrow> string list" where
  "availableTranslations dbPool = map fst dbPool"

definition healthHandler ::
  "(string \<times> 'db) list \<Rightarrow> response \<Rightarrow> request \<Rightarrow> response \<times> 'db access list" where
  "healthHandler dbPool w r =
     (let w = headerSet ''Content-Type'' ''application/json'' w
      in (Write (Encode True (JObject
            [(''status'', JString ''ok''),
             (''translations'', JArray (map JString (availableTranslations dbPool)))])) w,
          []))"

text \<open>The two middlewares. What \<^verbatim>\<open>loggingMiddleware\<close> prints is not part of the model.\<close>

definition loggingMiddleware ::
  "(response \<Rightarrow> request \<Rightarrow> response \<times> 'db access list) \<Rightarrow> response \<Rightarrow> request
     \<Rightarrow> response \<times> 'db access list" where
  "loggingMiddleware next w r = next w r"

definition corsMiddleware ::
  "(response \<Rightarrow> request \<Rightarrow> response \<times> 'db access list) \<Rightarrow> response \<Rightarrow> request
     \<Rightarrow> response \<times> 'db access list" where
  "corsMiddleware next w r =
     (let w = headerSet ''Access-Control-Allow-Origin'' ''*'' w;
          w = headerSet ''Access-Control-Allow-Methods'' ''GET, OPTIONS'' w;
          w = headerSet ''Access-Control-Allow-Headers'' ''Content-Type'' w
      in if Method r = ''OPTIONS'' then (WriteHeader 200 w, []) else next w r)"

text \<open>The handlers as \<^verbatim>\<open>main\<close> registers them for the two patterns.\<close>

definition verseRoute ::
  "(string \<times> 'db) list \<Rightarrow> ('db \<Rightarrow> string + row) \<Rightarrow> request \<Rightarrow> response \<times> 'db access list" where
  "verseRoute dbPool queryRow r =
     corsMiddleware (loggingMiddleware (getRandomVerseHandler dbPool queryRow)) newResponse r"

definition healthRoute :: "(string \<times> 'db) list \<Rightarrow> request \<Rightarrow> response \<times> 'db access list" where
  "healthRoute dbPool r = corsMiddleware (loggingMiddleware (healthHandler dbPool)) newResponse r"

text \<open>The status a client receives: 200 when the handler wrote none.\<close>

definition statusCode :: "response \<Rightarrow> nat" where
  "statusCode w = (case status w of None \<Rightarrow> 200 | Some code \<Rightarrow> code)"

section \<open>Opening and closing the databases\<close>

text \<open>
  What \<^verbatim>\<open>initDatabases\<close> and \<^verbatim>\<open>main\<close> ask of the world: whether \<^verbatim>\<open>os.Stat\<close> reports
  that a file does not exist, what \<^verbatim>\<open>sql.Open\<close> returns for a data source name (an error or
  a handle), whether \<^verbatim>\<open>Ping\<close> succeeds on a handle, the value of \<^verbatim>\<open>PORT\<close>, and the
  error \<^verbatim>\<open>http.ListenAndServe\<close> returns for an address (\<open>None\<close> for \<^verbatim>\<open>nil\<close>; net/http
  documents that it always returns a non-nil error).
\<close>

record 'h env =
  fileMissing :: "string \<Rightarrow> bool"
  sqlOpen :: "string \<Rightarrow> string + 'h"
  pingOk :: "'h \<Rightarrow> bool"
  PORT :: string
  ListenAndServe :: "string \<Rightarrow> string option"

datatype 'h event = Opened 'h | Closed 'h

text \<open>
  The loop of \<^verbatim>\<open>initDatabases\<close> over the entries of \<^verbatim>\<open>translations\<close>, in the order the
  iteration visits them. The pool is a global variable of the program: the loop is given the
  pool and the trace of handles opened and closed so far, and returns them with its error
  (\<open>None\<close> for \<^verbatim>\<open>nil\<close>). An error of \<^verbatim>\<open>sql.Open\<close> returns at once.
\<close>

fun initLoop ::
  "'h env \<Rightarrow> (string \<times> string) list \<Rightarrow> (string \<times> 'h) list \<times> 'h event list
     \<Rightarrow> string option \<times> (string \<times> 'h) list \<times> 'h event list" where
  "initLoop e [] (dbPool, trace) = (None, dbPool, trace)"
| "initLoop e ((name, file) # rest) (dbPool, trace) =
     (if fileMissing e file then initLoop e rest (dbPool, trace)
      else
        (case sqlOpen e (''file:'' @ file @ ''?mode=ro&cache=shared'') of
           Inl err \<Rightarrow> (Some (''failed to open database '' @ name @ '': '' @ err), dbPool, trace)
         | Inr db \<Rightarrow>
             if \<not> pingOk e db then initLoop e rest (dbPool, trace @ [Opened db, Closed db])
             else initLoop e rest (AList.update name db dbPool, trace @ [Opened db])))"

definition initDatabases ::
  "'h env \<Rightarrow> (string \<times> string) list
     \<Rightarrow> string option \<times> (string \<times> 'h) list \<times> 'h event list" where
  "initDatabases e entries =
     (case initLoop e entries ([], []) of
        (Some err, dbPool, trace) \<Rightarrow> (Some err, dbPool, trace)
      | (None, dbPool, trace) \<Rightarrow>
          if length dbPool = 0 then (Some ''no valid databases could be loaded'', dbPool, trace)
          else (None, dbPool, trace))"

text \<open>
  \<^verbatim>\<open>main\<close>, as the trace of handles opened and closed and the way the process ends.
  \<^verbatim>\<open>log.Fatalf\<close> prints and calls \<^verbatim>\<open>os.Exit(1)\<close>, which runs no deferred function; the
  deferred closing of the pool runs when \<^verbatim>\<open>main\<close> returns.
\<close>

datatype ending = Fatal | Returned

definition main :: "'h env \<Rightarrow> (string \<times> string) list \<Rightarrow> 'h event list \<times> ending" where
  "main e entries =
     (case initDatabases e entries of
        (Some err, dbPool, trace) \<Rightarrow> (trace, Fatal)
      | (None, dbPool, trace) \<Rightarrow>
          (let port = (if PORT e = [] then ''8080'' else PORT e) in
           case ListenAndServe e ('':'' @ port) of
             Some err \<Rightarrow> (trace, Fatal)
           | None \<Rightarrow> (trace @ map (\<lambda>(name, db). Closed db) dbPool, Returned)))"

text \<open>
  A world for the examples: the files named in \<open>missing\<close> do not exist, \<^verbatim>\<open>sql.Open\<close> fails
  on the data source names in \<open>broken\<close> and returns the name itself as the handle otherwise,
  \<^verbatim>\<open>Ping\<close> fails on the handles in \<open>dead\<close>, \<^verbatim>\<open>PORT\<close> is not set, and the port is taken.
\<close>

definition world :: "string list \<Rightarrow> string list \<Rightarrow> string list \<Rightarrow> string env" where
  "world missing broken dead =
     \<lparr>fileMissing = (\<lambda>f. f \<in> set missing),
      sqlOpen = (\<lambda>dsn. if dsn \<in> set broken then Inl ''unable to open database file'' else Inr dsn),
      pingOk = (\<lambda>db. db \<notin> set dead),
      PORT = [],
      ListenAndServe = (\<lambda>addr. Some (''listen tcp '' @ addr @ '': bind: address already in use''))\<rparr>"

text \<open>The response after the three header lines of \<^verbatim>\<open>corsMiddleware\<close>.\<close>

definition corsHeaders :: response where
  "corsHeaders =
     headerSet ''Access-Control-Allow-Headers'' ''Content-Type''
       (headerSet ''Access-Control-Allow-Methods'' ''GET, OPTIONS''
         (headerSet ''Access-Control-Allow-Origin'' ''*'' newResponse))"

section \<open>The search on the two patterns\<close>

declare backtrack.simps(7) [simp del]

lemma backtrack_Plus_Set:
  "backtrack (Plus (Set cs)) (x # xs) k =
     (if x \<in> set cs
      then (case backtrack (Plus (Set cs)) xs k of Some t \<Rightarrow> Some t | None \<Rightarrow> k xs)
      else None)"
  "backtrack (Plus (Set cs)) [] k = None"
  by (simp_all add: backtrack.simps(7))

lemma backtrack_Plus_NSet:
  "backtrack (Plus (NSet cs)) (x # xs) k =
     (if x \<in> set cs then None
      else (case backtrack (Plus (NSet cs)) xs k of Some t \<Rightarrow> Some t | None \<Rightarrow> k xs))"
  "backtrack (Plus (NSet cs)) [] k = None"
  by (simp_all add: backtrack.simps(7))

lemma giveback_fails:
  assumes step: "\<And>c t. P c \<Longrightarrow> k t = None \<Longrightarrow> k (c # t) = None"
    and none: "k (dropWhile P s) = None"
  shows "k s = None"
proof -
  have "k (r @ dropWhile P s) = None" if "\<forall>c \<in> set r. P c" for r
    using that by (induction r) (simp_all add: none step)
  from this [of "takeWhile P s"] show ?thesis
    by (auto dest: set_takeWhileD)
qed

lemma greedy_step:
  assumes step: "\<And>c t. P c \<Longrightarrow> k t = None \<Longrightarrow> k (c # t) = None"
    and IH: "m = (if takeWhile P xs = [] then None else k (dropWhile P xs))"
    and x: "P x"
  shows "(case m of Some t \<Rightarrow> Some t | None \<Rightarrow> k xs) = k (dropWhile P (x # xs))"
proof (cases "takeWhile P xs = []")
  case True
  then have "dropWhile P xs = xs"
    by (metis append_Nil takeWhile_dropWhile_id)
  with True IH x show ?thesis by simp
next
  case False
  show ?thesis
  proof (cases "k (dropWhile P xs)")
    case None
    with step have "k xs = None" by (rule giveback_fails)
    with None False IH x show ?thesis by simp
  next
    case (Some t)
    with False IH x show ?thesis by simp
  qed
qed

lemma Plus_Set_greedy:
  assumes step: "\<And>c t. c \<in> set cs \<Longrightarrow> k t = None \<Longrightarrow> k (c # t) = None"
  shows "backtrack (Plus (Set cs)) s k =
     (if takeWhile (\<lambda>c. c \<in> set cs) s = [] then None else k (dropWhile (\<lambda>c. c \<in> set cs) s))"
proof (induction s)
  case Nil
  show ?case by (simp add: backtrack_Plus_Set)
next
  case (Cons x xs)
  show ?case
  proof (cases "x \<in> set cs")
    case False
    then show ?thesis by (simp add: backtrack_Plus_Set)
  next
    case True
    then have "backtrack (Plus (Set cs)) (x # xs) k =
        (case backtrack (Plus (Set cs)) xs k of Some t \<Rightarrow> Some t | None \<Rightarrow> k xs)"
      by (simp add: backtrack_Plus_Set)
    also have "\<dots> = k (dropWhile (\<lambda>c. c \<in> set cs) (x # xs))"
      using step Cons.IH True by (rule greedy_step [where P = "\<lambda>c. c \<in> set cs"])
    finally show ?thesis using True by simp
  qed
qed

lemma Plus_NSet_greedy:
  assumes step: "\<And>c t. c \<notin> set cs \<Longrightarrow> k t = None \<Longrightarrow> k (c # t) = None"
  shows "backtrack (Plus (NSet cs)) s k =
     (if takeWhile (\<lambda>c. c \<notin> set cs) s = [] then None else k (dropWhile (\<lambda>c. c \<notin> set cs) s))"
proof (induction s)
  case Nil
  show ?case by (simp add: backtrack_Plus_NSet)
next
  case (Cons x xs)
  show ?case
  proof (cases "x \<in> set cs")
    case True
    then show ?thesis by (simp add: backtrack_Plus_NSet)
  next
    case False
    then have "backtrack (Plus (NSet cs)) (x # xs) k =
        (case backtrack (Plus (NSet cs)) xs k of Some t \<Rightarrow> Some t | None \<Rightarrow> k xs)"
      by (simp add: backtrack_Plus_NSet)
    also have "\<dots> = k (dropWhile (\<lambda>c. c \<notin> set cs) (x # xs))"
      using step Cons.IH False by (rule greedy_step [where P = "\<lambda>c. c \<notin> set cs"])
    finally show ?thesis using False by simp
  qed
qed

lemma backtrack_lits:
  "backtrack (lits l) s k = (if prefix l s then k (drop (length l) s) else None)"
proof (induction l arbitrary: s k rule: lits.induct)
  case 1
  show ?case by (simp split: list.splits)
next
  case (2 c)
  show ?case by (cases s) simp_all
next
  case (3 c v va)
  show ?case
  proof (cases s)
    case Nil
    then show ?thesis by simp
  next
    case (Cons x xs)
    then show ?thesis using 3 [of xs k] by simp
  qed
qed

declare lits.simps [simp del]

lemma matchAt_whitespaceRegex:
  "matchAt whitespaceRegex s = (if takeWhile wsChar s = [] then None else Some (dropWhile wsChar s))"
proof -
  have "wsChar = (\<lambda>c. c \<in> set [CHR 0x09, CHR 0x0A, CHR 0x0C, CHR 0x0D, CHR '' ''])"
    by (simp add: wsChar_def fun_eq_iff)
  then show ?thesis
    unfolding matchAt_def whitespaceRegex_def whitespace_def
    by (subst Plus_Set_greedy) simp_all
qed

lemma length_lits: "length ''<S>'' = 3" "length ''</S>'' = 4"
  by simp_all

lemma marker_alternative:
  "backtrack (Cat (lits ''<S>'') (Cat (Plus digit) (lits ''</S>''))) s Some = markerAt s"
proof -
  let ?k = "\<lambda>s'. if prefix ''</S>'' s' then Some (drop 4 s') else None"
  have d: "digitChar = (\<lambda>c. c \<in> set ''0123456789'')"
    by (simp add: digitChar_def fun_eq_iff)
  have plus: "backtrack (Plus digit) t ?k =
      (if takeWhile digitChar t = [] then None else ?k (dropWhile digitChar t))" for t
    unfolding digit_def d
    by (rule Plus_Set_greedy) auto
  have "backtrack (Cat (lits ''<S>'') (Cat (Plus digit) (lits ''</S>''))) s Some =
      (if prefix ''<S>'' s then backtrack (Plus digit) (drop 3 s) ?k else None)"
    by (simp only: backtrack.simps(4) backtrack_lits length_lits)
  also have "\<dots> = markerAt s"
    by (simp only: plus markerAt_def) simp
  finally show ?thesis .
qed

lemma closeTag_Cons:
  "closeTag (c # t) =
     (if c = CHR ''>'' then Some t
      else if c = CHR ''/'' then (case t of [] \<Rightarrow> None | d # r \<Rightarrow> if d = CHR ''>'' then Some r else None)
      else None)"
  by (auto simp: closeTag_def split: list.splits)

lemma closeTag_Nil: "closeTag [] = None"
  by (simp add: closeTag_def)

lemma tag_tail:
  "backtrack (Cat (Plus (NSet ''ai <>'')) (Cat (Quest (Lit CHR ''/'')) (Lit CHR ''>''))) t Some =
     tagTail t"
proof -
  have c: "tagChar = (\<lambda>c. c \<notin> set ''ai <>'')"
    by (simp add: tagChar_def fun_eq_iff)
  have "backtrack (Cat (Plus (NSet ''ai <>'')) (Cat (Quest (Lit CHR ''/'')) (Lit CHR ''>''))) t Some =
      backtrack (Plus (NSet ''ai <>'')) t closeTag"
    by (simp only: backtrack.simps(4) closeTag_def [abs_def])
  also have "\<dots> = (if takeWhile tagChar t = [] then None else closeTag (dropWhile tagChar t))"
    unfolding c
  proof (rule Plus_NSet_greedy)
    fix c t assume "c \<notin> set ''ai <>''" "closeTag t = None"
    then show "closeTag (c # t) = None"
      by (cases t) (auto simp: closeTag_Cons split: if_splits)
  qed
  also have "closeTag (dropWhile tagChar t) = closing (dropWhile tagChar t)"
  proof (cases "dropWhile tagChar t")
    case Nil
    then show ?thesis by (simp only: closeTag_Nil closing_def list.case)
  next
    case (Cons d r)
    then have "\<not> tagChar d"
      by (metis hd_dropWhile list.sel(1) list.distinct(1))
    then have "d \<noteq> CHR ''/''" by (auto simp: tagChar_def)
    with Cons show ?thesis by (simp add: closeTag_Cons closing_def)
  qed
  finally show ?thesis by (simp only: tagTail_def)
qed

lemma tagTail_slash:
  "(case tagTail s2 of Some t \<Rightarrow> Some t | None \<Rightarrow> tagTail (CHR ''/'' # s2)) = tagTail (CHR ''/'' # s2)"
proof (cases "takeWhile tagChar s2 = []")
  case True
  then show ?thesis by (simp add: tagTail_def)
next
  case False
  have "tagChar CHR ''/''" by (simp add: tagChar_def)
  with False have "tagTail (CHR ''/'' # s2) = tagTail s2"
    by (simp add: tagTail_def)
  then show ?thesis by (simp split: option.splits)
qed

lemma tag_alternative:
  "backtrack (Cat (Lit CHR ''<'') (Cat (Quest (Lit CHR ''/''))
           (Cat (Plus (NSet ''ai <>'')) (Cat (Quest (Lit CHR ''/'')) (Lit CHR ''>''))))) s Some
   = tagAt s"
proof (cases s)
  case Nil
  then show ?thesis by (simp add: tagAt_def)
next
  case (Cons c s1)
  let ?T = "Cat (Plus (NSet ''ai <>'')) (Cat (Quest (Lit CHR ''/'')) (Lit CHR ''>''))"
  have "backtrack (Quest (Lit CHR ''/'')) s1 tagTail = tagTail s1"
  proof (cases s1)
    case Nil
    then show ?thesis by simp
  next
    case (Cons d s2)
    show ?thesis
    proof (cases "d = CHR ''/''")
      case True
      with Cons tagTail_slash [of s2] show ?thesis by (simp only: backtrack.simps list.case simp_thms if_True)
    next
      case False
      with Cons show ?thesis by simp
    qed
  qed
  moreover have "backtrack (Cat (Quest (Lit CHR ''/'')) ?T) s1 Some =
      backtrack (Quest (Lit CHR ''/'')) s1 tagTail"
    by (subst backtrack.simps(4)) (simp only: tag_tail)
  ultimately have "backtrack (Cat (Quest (Lit CHR ''/'')) ?T) s1 Some = tagTail s1"
    by (simp only:)
  moreover have "backtrack (Cat (Lit CHR ''<'') (Cat (Quest (Lit CHR ''/'')) ?T)) (c # s1) Some =
     (if c = CHR ''<'' then backtrack (Cat (Quest (Lit CHR ''/'')) ?T) s1 Some else None)"
    by (subst backtrack.simps(4)) (simp only: backtrack.simps(1) list.case)
  ultimately show ?thesis
    using Cons by (simp only: tagAt_def list.case)
qed

lemma matchAt_textCleanRegex:
  "matchAt textCleanRegex s = (case markerAt s of Some r \<Rightarrow> Some r | None \<Rightarrow> tagAt s)"
  unfolding matchAt_def textCleanRegex_def
  by (simp only: backtrack.simps(5) marker_alternative tag_alternative)

lemma markerAt_Some:
  "markerAt s = Some r \<longleftrightarrow>
     (\<exists>ds. ds \<noteq> [] \<and> list_all digitChar ds \<and> s = ''<S>'' @ ds @ ''</S>'' @ r)"
proof
  assume m: "markerAt s = Some r"
  let ?t = "drop 3 s"
  from m have p: "prefix ''<S>'' s" and n: "takeWhile digitChar ?t \<noteq> []"
    and q: "prefix ''</S>'' (dropWhile digitChar ?t)"
    and r: "r = drop 4 (dropWhile digitChar ?t)"
    by (auto simp: markerAt_def split: if_splits)
  from p have "s = ''<S>'' @ ?t" by (auto simp: prefix_def)
  moreover have "?t = takeWhile digitChar ?t @ dropWhile digitChar ?t" by simp
  moreover from q r have "dropWhile digitChar ?t = ''</S>'' @ r" by (auto simp: prefix_def)
  moreover have "list_all digitChar (takeWhile digitChar ?t)"
    by (auto simp: list_all_iff dest: set_takeWhileD)
  ultimately show "\<exists>ds. ds \<noteq> [] \<and> list_all digitChar ds \<and> s = ''<S>'' @ ds @ ''</S>'' @ r"
    using n by metis
next
  assume "\<exists>ds. ds \<noteq> [] \<and> list_all digitChar ds \<and> s = ''<S>'' @ ds @ ''</S>'' @ r"
  then obtain ds where ds: "ds \<noteq> []" "list_all digitChar ds" "s = ''<S>'' @ ds @ ''</S>'' @ r"
    by blast
  have "\<not> digitChar CHR ''<''" by (simp add: digitChar_def)
  with ds have "takeWhile digitChar (ds @ ''</S>'' @ r) = ds"
    "dropWhile digitChar (ds @ ''</S>'' @ r) = ''</S>'' @ r"
    by (simp_all add: list_all_iff)
  with ds show "markerAt s = Some r"
    by (simp add: markerAt_def)
qed

lemma markerAt_shorter: "markerAt s = Some r \<Longrightarrow> length r < length s"
  by (auto simp: markerAt_Some)

lemma closing_Some: "closing s = Some r \<longleftrightarrow> s = CHR ''>'' # r"
  by (auto simp: closing_def split: list.splits)

lemma tagTail_Some:
  "tagTail t = Some r \<longleftrightarrow> (\<exists>x. x \<noteq> [] \<and> list_all tagChar x \<and> t = x @ CHR ''>'' # r)"
proof
  assume "tagTail t = Some r"
  then have "takeWhile tagChar t \<noteq> []" and d: "dropWhile tagChar t = CHR ''>'' # r"
    by (auto simp: tagTail_def closing_Some split: if_splits)
  moreover have "t = takeWhile tagChar t @ dropWhile tagChar t" by simp
  moreover have "list_all tagChar (takeWhile tagChar t)"
    by (auto simp: list_all_iff dest: set_takeWhileD)
  ultimately show "\<exists>x. x \<noteq> [] \<and> list_all tagChar x \<and> t = x @ CHR ''>'' # r"
    by metis
next
  assume "\<exists>x. x \<noteq> [] \<and> list_all tagChar x \<and> t = x @ CHR ''>'' # r"
  then obtain x where x: "x \<noteq> []" "list_all tagChar x" "t = x @ CHR ''>'' # r" by blast
  have "\<not> tagChar CHR ''>''" by (simp add: tagChar_def)
  with x have "takeWhile tagChar t = x" "dropWhile tagChar t = CHR ''>'' # r"
    by (simp_all add: list_all_iff)
  with x show "tagTail t = Some r"
    by (simp add: tagTail_def closing_def)
qed

lemma tagAt_Some:
  "tagAt s = Some r \<longleftrightarrow> (\<exists>x. x \<noteq> [] \<and> list_all tagChar x \<and> s = CHR ''<'' # x @ CHR ''>'' # r)"
  by (cases s) (auto simp: tagAt_def tagTail_Some)

lemma tagAt_shorter: "tagAt s = Some r \<Longrightarrow> length r < length s"
  by (auto simp: tagAt_Some)

lemma matchAt_textClean_shorter: "matchAt textCleanRegex s = Some r \<Longrightarrow> length r < length s"
  by (auto simp: matchAt_textCleanRegex split: option.splits dest: markerAt_shorter tagAt_shorter)

lemma matchAt_textClean_Nil: "matchAt textCleanRegex [] = None"
  by (simp add: matchAt_textCleanRegex markerAt_def tagAt_def)

lemma stripped_Nil: "stripped [] = []"
  by (simp add: matchAt_textClean_Nil)

lemma stripped_Cons:
  "stripped (c # cs) =
     (case matchAt textCleanRegex (c # cs) of None \<Rightarrow> c # stripped cs | Some r \<Rightarrow> stripped r)"
  by (auto split: option.splits dest: matchAt_textClean_shorter)

lemma matchAt_textClean_head:
  "c \<noteq> CHR ''<'' \<Longrightarrow> matchAt textCleanRegex (c # cs) = None"
  by (simp add: matchAt_textCleanRegex markerAt_def tagAt_def)

lemma stripped_plain: "CHR ''<'' \<notin> set w \<Longrightarrow> stripped (w @ s) = w @ stripped s"
proof (induction w)
  case Nil
  show ?case by simp
next
  case (Cons a w)
  then have "matchAt textCleanRegex (a # w @ s) = None"
    by (intro matchAt_textClean_head) auto
  with Cons show ?case
    by (simp add: stripped_Cons del: replaceAllString.simps)
qed

lemma span_append:
  assumes "s \<noteq> []" "\<not> P (hd s)"
  shows "takeWhile P (w @ s) = takeWhile P w" and "dropWhile P (w @ s) = dropWhile P w @ s"
  using assms by (induction w) (simp_all add: takeWhile_eq_Nil_iff dropWhile_eq_self_iff)

lemma tagTail_append:
  assumes "s \<noteq> []" "hd s = CHR ''<''"
  shows "tagTail (w @ s) = map_option (\<lambda>r. r @ s) (tagTail w)"
proof -
  have "\<not> tagChar (hd s)" using assms by (simp add: tagChar_def)
  with assms have "takeWhile tagChar (w @ s) = takeWhile tagChar w"
    "dropWhile tagChar (w @ s) = dropWhile tagChar w @ s"
    by (simp_all add: span_append)
  moreover have "closing (d @ s) = map_option (\<lambda>r. r @ s) (closing d)" for d
    using assms by (cases d; cases s) (simp_all add: closing_def)
  ultimately show ?thesis
    by (simp add: tagTail_def)
qed

lemma tagAt_append:
  assumes "w \<noteq> []" "s \<noteq> []" "hd s = CHR ''<''"
  shows "tagAt (w @ s) = map_option (\<lambda>r. r @ s) (tagAt w)"
  using assms by (cases w) (simp_all add: tagAt_def tagTail_append)

lemma bareOpen_iff:
  "bareOpen w \<longleftrightarrow> (\<exists>ds. ds \<noteq> [] \<and> list_all digitChar ds \<and> w = ''<S>'' @ ds)"
  by (auto simp: bareOpen_def prefix_def)

lemma prefix_open_append:
  assumes "w \<noteq> []" "s \<noteq> []" "hd s = CHR ''<''"
  shows "prefix ''<S>'' (w @ s) = prefix ''<S>'' w"
proof -
  obtain s' where s: "s = CHR ''<'' # s'" using assms by (cases s) auto
  show ?thesis
  proof (cases w)
    case Nil
    with assms show ?thesis by simp
  next
    case w1: (Cons a w1)
    show ?thesis
    proof (cases w1)
      case Nil
      with w1 s show ?thesis by simp
    next
      case w2: (Cons b w2)
      show ?thesis
      proof (cases w2)
        case Nil
        with w1 w2 s show ?thesis by simp
      next
        case (Cons c w3)
        with w1 w2 s show ?thesis by simp
      qed
    qed
  qed
qed

lemma prefix_close_append:
  assumes "s \<noteq> []" "hd s = CHR ''<''"
  shows "prefix ''</S>'' (d @ s) = (prefix ''</S>'' d \<or> d = [] \<and> prefix ''</S>'' s)"
proof -
  obtain s' where s: "s = CHR ''<'' # s'" using assms by (cases s) auto
  show ?thesis
  proof (cases d)
    case Nil
    then show ?thesis by simp
  next
    case d1: (Cons a d1)
    show ?thesis
    proof (cases d1)
      case Nil
      with d1 s show ?thesis by simp
    next
      case d2: (Cons b d2)
      show ?thesis
      proof (cases d2)
        case Nil
        with d1 d2 s show ?thesis by simp
      next
        case d3: (Cons c d3)
        show ?thesis
        proof (cases d3)
          case Nil
          with d1 d2 d3 s show ?thesis by simp
        next
          case (Cons e d4)
          with d1 d2 d3 s show ?thesis by simp
        qed
      qed
    qed
  qed
qed

lemma markerAt_append:
  assumes w: "w \<noteq> []" and s: "s \<noteq> []" "hd s = CHR ''<''"
    and free: "\<not> (prefix ''</S>'' s \<and> bareOpen w)"
  shows "markerAt (w @ s) = map_option (\<lambda>r. r @ s) (markerAt w)"
proof (cases "prefix ''<S>'' w")
  case False
  with w s show ?thesis
    by (simp add: markerAt_def prefix_open_append)
next
  case True
  let ?t = "drop 3 w"
  let ?d = "dropWhile digitChar ?t"
  from True have len: "3 \<le> length w" by (auto simp: prefix_def)
  then have t: "drop 3 (w @ s) = ?t @ s" by simp
  have nd: "\<not> digitChar (hd s)" using s by (simp add: digitChar_def)
  have span: "takeWhile digitChar (?t @ s) = takeWhile digitChar ?t"
    "dropWhile digitChar (?t @ s) = ?d @ s"
    using s(1) nd by (rule span_append)+
  have none: "\<not> (takeWhile digitChar ?t \<noteq> [] \<and> ?d = [] \<and> prefix ''</S>'' s)"
  proof
    assume a: "takeWhile digitChar ?t \<noteq> [] \<and> ?d = [] \<and> prefix ''</S>'' s"
    then have "?t \<noteq> []" by auto
    moreover from a have "list_all digitChar ?t"
      by (simp add: list_all_iff)
    ultimately have "bareOpen w" using True by (simp add: bareOpen_def)
    with a free show False by simp
  qed
  have close: "prefix ''</S>'' (?d @ s) = (prefix ''</S>'' ?d \<or> ?d = [] \<and> prefix ''</S>'' s)"
    using s by (rule prefix_close_append)
  have rest: "drop 4 (?d @ s) = drop 4 ?d @ s" if "prefix ''</S>'' ?d"
    using that by (auto simp: prefix_def)
  have "prefix ''<S>'' (w @ s)"
    using True w s by (simp add: prefix_open_append)
  then show ?thesis
    using True none rest
    by (simp only: markerAt_def t span close) auto
qed

lemma matchAt_textClean_append:
  assumes w: "w \<noteq> []" and s: "s \<noteq> []" "hd s = CHR ''<''"
    and free: "\<not> (prefix ''</S>'' s \<and> bareOpen w)"
  shows "matchAt textCleanRegex (w @ s) = map_option (\<lambda>r. r @ s) (matchAt textCleanRegex w)"
  by (simp add: matchAt_textCleanRegex markerAt_append [OF assms] tagAt_append [OF w s]
      split: option.splits)

declare replaceAllString.simps [simp del]

lemma span_run:
  assumes "list_all P xs" "ys = [] \<or> \<not> P (hd ys)"
  shows "takeWhile P (xs @ ys) = xs" and "dropWhile P (xs @ ys) = ys"
  using assms by (induction xs) (auto simp: takeWhile_eq_Nil_iff dropWhile_eq_self_iff)

lemma opened_iff:
  "opened u \<longleftrightarrow> (\<exists>p w. u = p @ w \<and> bareOpen w)"
proof
  assume o: "opened u"
  let ?r = "rev u"
  let ?ds = "rev (takeWhile digitChar ?r)"
  from o obtain q where q: "dropWhile digitChar ?r = ''>S<'' @ q"
    by (auto simp: opened_def prefix_def)
  have "?r = takeWhile digitChar ?r @ dropWhile digitChar ?r" by simp
  with q have "?r = takeWhile digitChar ?r @ ''>S<'' @ q" by simp
  then have "rev ?r = rev (takeWhile digitChar ?r @ ''>S<'' @ q)" by simp
  then have "u = rev q @ ''<S>'' @ ?ds" by simp
  moreover have "list_all digitChar ?ds"
    by (auto simp: list_all_iff dest: set_takeWhileD)
  moreover from o have "?ds \<noteq> []" by (simp add: opened_def)
  ultimately show "\<exists>p w. u = p @ w \<and> bareOpen w"
    unfolding bareOpen_iff by blast
next
  assume "\<exists>p w. u = p @ w \<and> bareOpen w"
  then obtain p ds where u: "u = p @ ''<S>'' @ ds" and ds: "ds \<noteq> []" "list_all digitChar ds"
    by (auto simp: bareOpen_iff)
  have "\<not> digitChar CHR ''>''" by (simp add: digitChar_def)
  moreover from ds have "list_all digitChar (rev ds)" by (simp add: list_all_iff)
  ultimately have "takeWhile digitChar (rev ds @ ''>S<'' @ rev p) = rev ds"
    "dropWhile digitChar (rev ds @ ''>S<'' @ rev p) = ''>S<'' @ rev p"
    by (simp_all add: span_run)
  with u ds show "opened u"
    by (simp add: opened_def)
qed

lemma stripped_append:
  assumes s: "s \<noteq> []" "hd s = CHR ''<''"
    and free: "\<not> (prefix ''</S>'' s \<and> opened u)"
  shows "stripped (u @ s) = stripped u @ stripped s"
  using free
proof (induction "length u" arbitrary: u rule: less_induct)
  case less
  show ?case
  proof (cases u)
    case Nil
    then show ?thesis by (simp add: stripped_Nil)
  next
    case (Cons c cs)
    have "\<not> (prefix ''</S>'' s \<and> bareOpen u)"
      using less.prems opened_iff [of u] by (metis append_Nil)
    with Cons s
    have m: "matchAt textCleanRegex (u @ s) = map_option (\<lambda>r. r @ s) (matchAt textCleanRegex u)"
      by (intro matchAt_textClean_append) simp_all
    have sub: "\<not> (prefix ''</S>'' s \<and> opened r)" if "u = p @ r" for p r
    proof
      assume a: "prefix ''</S>'' s \<and> opened r"
      then obtain p' w where "r = p' @ w" "bareOpen w" by (auto simp: opened_iff)
      with that have "u = (p @ p') @ w \<and> bareOpen w" by simp
      then have "opened u" unfolding opened_iff by blast
      with a less.prems show False by simp
    qed
    show ?thesis
    proof (cases "matchAt textCleanRegex u")
      case None
      have "stripped (cs @ s) = stripped cs @ stripped s"
        using Cons by (intro less.hyps sub [of "[c]"]) simp_all
      with None m Cons show ?thesis
        by (simp add: stripped_Cons)
    next
      case (Some r)
      then have "length r < length u" by (rule matchAt_textClean_shorter)
      moreover from Some obtain p where "u = p @ r"
        by (auto simp: matchAt_textCleanRegex markerAt_Some tagAt_Some split: option.splits)
      ultimately have "stripped (r @ s) = stripped r @ stripped s"
        by (intro less.hyps sub)
      with Some m Cons show ?thesis
        by (simp add: stripped_Cons)
    qed
  qed
qed

lemma delimited:
  assumes "2 < length t" "hd t = a" "last t = b"
  shows "t = a # butlast (tl t) @ [b]" and "butlast (tl t) \<noteq> []"
proof -
  from assms obtain t' where t: "t = a # t'" by (cases t) auto
  with assms have t': "t' \<noteq> []" "last t' = b" "1 < length t'" by auto
  then have "t' = butlast t' @ [b]" by (metis append_butlast_last_id)
  with t show "t = a # butlast (tl t) @ [b]" by simp
  from t t' show "butlast (tl t) \<noteq> []" by (cases t' rule: rev_cases) auto
qed

lemma bareTag_iff:
  "bareTag t \<longleftrightarrow> (\<exists>x. x \<noteq> [] \<and> list_all tagChar x \<and> t = CHR ''<'' # x @ ''>'')"
proof
  assume "bareTag t"
  then show "\<exists>x. x \<noteq> [] \<and> list_all tagChar x \<and> t = CHR ''<'' # x @ ''>''"
    unfolding bareTag_def using delimited [of t "CHR ''<''" "CHR ''>''"] by blast
next
  assume "\<exists>x. x \<noteq> [] \<and> list_all tagChar x \<and> t = CHR ''<'' # x @ ''>''"
  then show "bareTag t"
    by (auto simp: bareTag_def butlast_append)
qed

lemma spacedTag_iff:
  "spacedTag t \<longleftrightarrow>
     (\<exists>x. CHR '' '' \<in> set x \<and> CHR ''<'' \<notin> set x \<and> CHR ''>'' \<notin> set x \<and> t = CHR ''<'' # x @ ''>'')"
proof
  assume "spacedTag t"
  then show "\<exists>x. CHR '' '' \<in> set x \<and> CHR ''<'' \<notin> set x \<and> CHR ''>'' \<notin> set x \<and> t = CHR ''<'' # x @ ''>''"
    unfolding spacedTag_def using delimited [of t "CHR ''<''" "CHR ''>''"] by blast
next
  assume "\<exists>x. CHR '' '' \<in> set x \<and> CHR ''<'' \<notin> set x \<and> CHR ''>'' \<notin> set x \<and> t = CHR ''<'' # x @ ''>''"
  then obtain x where x: "CHR '' '' \<in> set x" "CHR ''<'' \<notin> set x" "CHR ''>'' \<notin> set x"
    "t = CHR ''<'' # x @ ''>''" by blast
  then have "x \<noteq> []" by auto
  with x show "spacedTag t"
    by (auto simp: spacedTag_def butlast_append)
qed


lemma name_unique:
  assumes "CHR ''>'' \<notin> set x" "CHR ''>'' \<notin> set y" "x @ CHR ''>'' # v = y @ CHR ''>'' # r"
  shows "x = y" and "v = r"
proof -
  let ?P = "\<lambda>c. c \<noteq> CHR ''>''"
  from assms(1) have "list_all ?P x" by (auto simp: list_all_iff)
  then have "takeWhile ?P (x @ CHR ''>'' # v) = x" by (rule span_run) simp
  moreover from assms(2) have "list_all ?P y" by (auto simp: list_all_iff)
  then have "takeWhile ?P (y @ CHR ''>'' # r) = y" by (rule span_run) simp
  ultimately show "x = y" using assms(3) by simp
  with assms(3) show "v = r" by simp
qed

lemma tagChar_name:
  "list_all tagChar x \<Longrightarrow> CHR ''>'' \<notin> set x \<and> CHR ''<'' \<notin> set x \<and> CHR '' '' \<notin> set x"
  by (auto simp: list_all_iff tagChar_def)

lemma prefix_name:
  assumes "CHR ''>'' \<notin> set x" "CHR ''>'' \<notin> set y" "prefix (CHR ''<'' # y @ ''>'') (CHR ''<'' # x @ CHR ''>'' # v)"
  shows "x = y"
proof -
  from assms(3) obtain r where "x @ CHR ''>'' # v = y @ CHR ''>'' # r"
    by (auto simp: prefix_def)
  with assms(1,2) show ?thesis by (rule name_unique)
qed



lemma stripped_spacedTag:
  assumes "spacedTag t"
  shows "stripped (u @ t @ v) = stripped u @ t @ stripped v"
proof -
  from assms obtain x where x: "CHR '' '' \<in> set x" "CHR ''<'' \<notin> set x" "CHR ''>'' \<notin> set x"
    "t = CHR ''<'' # x @ ''>''" by (auto simp: spacedTag_iff)
  have no_close: "\<not> prefix ''</S>'' (t @ v)"
  proof
    assume "prefix ''</S>'' (t @ v)"
    with x(4) have "prefix (CHR ''<'' # ''/S'' @ ''>'') (CHR ''<'' # x @ CHR ''>'' # v)" by simp
    with x(3) have "x = ''/S''" by (intro prefix_name) simp_all
    with x(1) show False by simp
  qed
  have "markerAt (t @ v) = None"
  proof (rule ccontr)
    assume "markerAt (t @ v) \<noteq> None"
    then have "prefix ''<S>'' (t @ v)" by (auto simp: markerAt_def split: if_splits)
    with x(4) have "prefix (CHR ''<'' # ''S'' @ ''>'') (CHR ''<'' # x @ CHR ''>'' # v)" by simp
    with x(3) have "x = ''S''" by (intro prefix_name) simp_all
    with x(1) show False by simp
  qed
  moreover have "tagAt (t @ v) = None"
  proof (rule ccontr)
    assume "tagAt (t @ v) \<noteq> None"
    then obtain r y where y: "y \<noteq> []" "list_all tagChar y" "t @ v = CHR ''<'' # y @ CHR ''>'' # r"
      by (auto simp: tagAt_Some)
    with x(4) have eq: "x @ CHR ''>'' # v = y @ CHR ''>'' # r" by simp
    from y(2) have "CHR ''>'' \<notin> set y" by (simp add: tagChar_name)
    with x(3) have "x = y" using eq by (rule name_unique(1))
    with x(1) y(2) show False by (simp add: tagChar_name)
  qed
  ultimately have "matchAt textCleanRegex (CHR ''<'' # (x @ ''>'') @ v) = None"
    using x(4) by (simp add: matchAt_textCleanRegex)
  then have "stripped (t @ v) = CHR ''<'' # stripped ((x @ ''>'') @ v)"
    using x(4) by (simp add: stripped_Cons)
  also have "stripped ((x @ ''>'') @ v) = (x @ ''>'') @ stripped v"
    using x(2) by (intro stripped_plain) simp
  finally have "stripped (t @ v) = t @ stripped v" using x(4) by simp
  moreover have "stripped (u @ t @ v) = stripped u @ stripped (t @ v)"
    using x(4) no_close by (intro stripped_append) simp_all
  ultimately show ?thesis by simp
qed

lemma matchAt_whitespace_Nil: "matchAt whitespaceRegex [] = None"
  by (simp add: matchAt_whitespaceRegex)

lemma collapsed_Nil: "collapsed [] = []"
  by (simp add: replaceAllString.simps matchAt_whitespace_Nil)

lemma collapsed_Cons:
  "collapsed (c # cs) =
     (if wsChar c then CHR '' '' # collapsed (dropWhile wsChar cs) else c # collapsed cs)"
proof (cases "wsChar c")
  case True
  have "length (dropWhile wsChar cs) \<le> length cs" by (rule length_dropWhile_le)
  with True show ?thesis
    by (simp add: replaceAllString.simps matchAt_whitespaceRegex)
next
  case False
  then show ?thesis
    by (simp add: replaceAllString.simps matchAt_whitespaceRegex)
qed

lemma collapsed_induct [case_names Nil ws other]:
  assumes "P []"
    and "\<And>c cs. wsChar c \<Longrightarrow> P (dropWhile wsChar cs) \<Longrightarrow> P (c # cs)"
    and "\<And>c cs. \<not> wsChar c \<Longrightarrow> P cs \<Longrightarrow> P (c # cs)"
  shows "P s"
proof (induction "length s" arbitrary: s rule: less_induct)
  case less
  show ?case
  proof (cases s)
    case Nil
    with assms(1) show ?thesis by simp
  next
    case (Cons c cs)
    have "length (dropWhile wsChar cs) \<le> length cs" by (rule length_dropWhile_le)
    with Cons have "P (dropWhile wsChar cs)" "P cs"
      by (auto intro: less)
    with Cons assms(2,3) show ?thesis by (cases "wsChar c") auto
  qed
qed

lemma length_collapsed: "length (collapsed s) \<le> length s"
proof (induction s rule: collapsed_induct)
  case Nil
  show ?case by (simp add: collapsed_Nil)
next
  case (ws c cs)
  have "length (dropWhile wsChar cs) \<le> length cs" by (rule length_dropWhile_le)
  with ws show ?case by (simp add: collapsed_Cons)
next
  case (other c cs)
  then show ?case by (simp add: collapsed_Cons)
qed

lemma collapsed_eq_Nil: "collapsed s = [] \<longleftrightarrow> s = []"
  by (cases s) (simp_all add: collapsed_Nil collapsed_Cons)

lemma hd_collapsed:
  "s \<noteq> [] \<Longrightarrow> hd (collapsed s) = (if wsChar (hd s) then CHR '' '' else hd s)"
  by (cases s) (simp_all add: collapsed_Cons)

lemma wsChar_space: "wsChar CHR '' ''"
  by (simp add: wsChar_def)

lemma wsRun_Cons:
  "wsRun (a # s) = (s \<noteq> [] \<and> (wsChar a \<and> wsChar (hd s) \<or> wsRun s))"
  by (cases s) simp_all

lemma not_wsRun_collapsed: "\<not> wsRun (collapsed s)"
proof (induction s rule: collapsed_induct)
  case Nil
  show ?case by (simp add: collapsed_Nil)
next
  case (ws c cs)
  let ?d = "dropWhile wsChar cs"
  have "?d \<noteq> [] \<Longrightarrow> \<not> wsChar (hd ?d)" by (rule hd_dropWhile)
  then have "collapsed ?d \<noteq> [] \<Longrightarrow> \<not> wsChar (hd (collapsed ?d))"
    by (simp add: collapsed_eq_Nil hd_collapsed)
  with ws show ?case
    by (auto simp: collapsed_Cons wsRun_Cons)
next
  case (other c cs)
  then show ?case by (auto simp: collapsed_Cons wsRun_Cons hd_collapsed collapsed_eq_Nil)
qed

lemma only_space_collapsed: "c \<in> set (collapsed s) \<Longrightarrow> wsChar c \<Longrightarrow> c = CHR '' ''"
proof (induction s rule: collapsed_induct)
  case Nil
  then show ?case by (simp add: collapsed_Nil)
next
  case (ws a cs)
  then show ?case by (auto simp: collapsed_Cons)
next
  case (other a cs)
  then show ?case by (auto simp: collapsed_Cons)
qed

lemma collapsed_tidy:
  "\<not> wsRun s \<Longrightarrow> (\<forall>c \<in> set s. wsChar c \<longrightarrow> c = CHR '' '') \<Longrightarrow> collapsed s = s"
proof (induction s)
  case Nil
  show ?case by (simp add: collapsed_Nil)
next
  case (Cons a s)
  then have IH: "collapsed s = s" by (cases s) (auto simp: wsRun_Cons)
  show ?case
  proof (cases "wsChar a")
    case True
    with Cons.prems have "a = CHR '' ''" "s = [] \<or> \<not> wsChar (hd s)"
      by (auto simp: wsRun_Cons)
    then have "dropWhile wsChar s = s" by (cases s) auto
    with True IH \<open>a = CHR '' ''\<close> show ?thesis by (simp add: collapsed_Cons)
  next
    case False
    with IH show ?thesis by (simp add: collapsed_Cons)
  qed
qed

lemma collapsed_idem: "collapsed (collapsed s) = collapsed s"
  by (rule collapsed_tidy) (auto simp: not_wsRun_collapsed dest: only_space_collapsed)

lemma collapsed_append_hd:
  assumes "s = [] \<or> \<not> wsChar (hd s)"
  shows "collapsed (a @ s) = collapsed a @ collapsed s"
proof (induction a rule: collapsed_induct)
  case Nil
  show ?case by (simp add: collapsed_Nil)
next
  case (ws c cs)
  from assms have "dropWhile wsChar (cs @ s) = dropWhile wsChar cs @ s"
    by (cases "s = []") (simp_all add: span_append)
  with ws show ?case by (simp add: collapsed_Cons)
next
  case (other c cs)
  then show ?case by (simp add: collapsed_Cons)
qed


lemma spaceRunes_props:
  assumes "e \<in> set spaceRunes"
  shows "e \<noteq> []" "CHR ''<'' \<notin> set e" "CHR ''>'' \<notin> set e"
    "\<forall>c \<in> set (tl e). \<not> wsChar c" "\<forall>c \<in> set (butlast e). \<not> wsChar c"
  using assms by (auto simp: spaceRunes_def wsChar_def)

lemma wsChar_spaceRune: "wsChar c \<Longrightarrow> [c] \<in> set spaceRunes"
  by (auto simp: spaceRunes_def wsChar_def)

lemma leadingSpace_zero_iff: "leadingSpace s = 0 \<longleftrightarrow> (\<forall>e \<in> set spaceRunes. \<not> prefix e s)"
  by (auto simp: leadingSpace_def find_None_iff find_Some_iff split: option.splits
      dest: spaceRunes_props(1) nth_mem)

lemma trailingSpace_zero_iff: "trailingSpace s = 0 \<longleftrightarrow> (\<forall>e \<in> set spaceRunes. \<not> suffix e s)"
  by (auto simp: trailingSpace_def find_None_iff find_Some_iff split: option.splits
      dest: spaceRunes_props(1) nth_mem)

lemma TrimLeft_id: "leadingSpace s = 0 \<Longrightarrow> TrimLeft s = s"
  by simp

lemma TrimRight_id: "trailingSpace s = 0 \<Longrightarrow> TrimRight s = s"
  by simp

declare TrimLeft.simps [simp del] TrimRight.simps [simp del]

lemma leadingSpace_TrimLeft: "leadingSpace (TrimLeft s) = 0"
  by (induction s rule: TrimLeft.induct) (subst TrimLeft.simps, simp)

lemma trailingSpace_TrimRight: "trailingSpace (TrimRight s) = 0"
  by (induction s rule: TrimRight.induct) (subst TrimRight.simps, simp)

lemma length_TrimLeft: "length (TrimLeft s) \<le> length s"
proof (induction s rule: TrimLeft.induct)
  case (1 s)
  show ?case
  proof (cases "leadingSpace s = 0")
    case True
    then show ?thesis by (simp add: TrimLeft_id)
  next
    case False
    with 1 have "length (TrimLeft (drop (leadingSpace s) s)) \<le> length s" by simp
    with False show ?thesis by (subst TrimLeft.simps) simp
  qed
qed

lemma length_TrimRight: "length (TrimRight s) \<le> length s"
proof (induction s rule: TrimRight.induct)
  case (1 s)
  show ?case
  proof (cases "trailingSpace s = 0")
    case True
    then show ?thesis by (simp add: TrimRight_id)
  next
    case False
    with 1 have "length (TrimRight (take (length s - trailingSpace s) s)) \<le> length s" by simp
    with False show ?thesis by (subst TrimRight.simps) simp
  qed
qed

lemma prefix_TrimRight: "prefix (TrimRight s) s"
proof (induction s rule: TrimRight.induct)
  case (1 s)
  show ?case
  proof (cases "trailingSpace s = 0")
    case True
    then show ?thesis by (simp add: TrimRight_id)
  next
    case False
    with 1 have "prefix (TrimRight (take (length s - trailingSpace s) s)) (take (length s - trailingSpace s) s)"
      by simp
    then have "prefix (TrimRight (take (length s - trailingSpace s) s)) s"
      using take_is_prefix prefix_order.order_trans by blast
    with False show ?thesis by (subst TrimRight.simps) simp
  qed
qed

lemma leadingSpace_TrimSpace: "leadingSpace (TrimSpace s) = 0"
proof -
  have "\<not> prefix e (TrimRight (TrimLeft s))" if "e \<in> set spaceRunes" for e
  proof
    assume "prefix e (TrimRight (TrimLeft s))"
    with prefix_TrimRight [of "TrimLeft s"] have "prefix e (TrimLeft s)"
      using prefix_order.order_trans by blast
    with that leadingSpace_TrimLeft [of s] show False
      by (simp add: leadingSpace_zero_iff)
  qed
  then show ?thesis by (simp add: TrimSpace_def leadingSpace_zero_iff)
qed

lemma trailingSpace_TrimSpace: "trailingSpace (TrimSpace s) = 0"
  by (simp add: TrimSpace_def trailingSpace_TrimRight)

lemma length_TrimSpace: "length (TrimSpace s) \<le> length s"
  unfolding TrimSpace_def
  using length_TrimRight [of "TrimLeft s"] length_TrimLeft [of s] by simp

lemma TrimSpace_id: "leadingSpace s = 0 \<Longrightarrow> trailingSpace s = 0 \<Longrightarrow> TrimSpace s = s"
  by (simp add: TrimSpace_def TrimLeft_id TrimRight_id)

lemma prefix_collapsed:
  "\<forall>c \<in> set e. \<not> wsChar c \<Longrightarrow> prefix e (collapsed w) \<Longrightarrow> prefix e w"
proof (induction e arbitrary: w)
  case Nil
  show ?case by simp
next
  case (Cons x e)
  from Cons.prems(2) obtain c cs where w: "w = c # cs"
    by (cases w) (auto simp: collapsed_Nil)
  show ?case
  proof (cases "wsChar c")
    case True
    with Cons.prems w wsChar_space show ?thesis by (auto simp: collapsed_Cons)
  next
    case False
    with Cons.prems w have "x = c" "prefix e (collapsed cs)" by (auto simp: collapsed_Cons)
    with Cons w show ?thesis by simp
  qed
qed

lemma collapsed_snoc_ws:
  "wsChar c \<Longrightarrow> \<exists>p. collapsed (w @ [c]) = p @ '' ''"
proof (induction w rule: collapsed_induct)
  case Nil
  then show ?case by (simp add: collapsed_Cons collapsed_Nil)
next
  case (ws a cs)
  show ?case
  proof (cases "\<forall>x \<in> set cs. wsChar x")
    case True
    with ws.prems have "dropWhile wsChar (cs @ [c]) = []" by simp
    with ws.hyps show ?thesis by (simp add: collapsed_Cons collapsed_Nil)
  next
    case False
    then have "dropWhile wsChar (cs @ [c]) = dropWhile wsChar cs @ [c]" by auto
    moreover from ws obtain p where "collapsed (dropWhile wsChar cs @ [c]) = p @ '' ''" by blast
    ultimately show ?thesis using ws.hyps by (simp add: collapsed_Cons)
  qed
next
  case (other a cs)
  then obtain p where "collapsed (cs @ [c]) = p @ '' ''" by blast
  with other.hyps show ?case by (simp add: collapsed_Cons)
qed

lemma suffix_collapsed:
  "\<forall>c \<in> set e. \<not> wsChar c \<Longrightarrow> suffix e (collapsed w) \<Longrightarrow> suffix e w"
proof (induction e arbitrary: w rule: rev_induct)
  case Nil
  show ?case by simp
next
  case (snoc x e)
  from snoc.prems(2) have "w \<noteq> []" by (auto simp: collapsed_Nil)
  then obtain w' c where w: "w = w' @ [c]" by (cases w rule: rev_cases) auto
  show ?case
  proof (cases "wsChar c")
    case True
    then obtain p where "collapsed w = p @ '' ''" using w collapsed_snoc_ws by blast
    with snoc.prems wsChar_space show ?thesis by (auto simp: suffix_def)
  next
    case False
    then have "collapsed w = collapsed w' @ [c]"
      using w collapsed_append_hd [of "[c]" w'] by (simp add: collapsed_Cons collapsed_Nil)
    with snoc.prems(2) have "x = c" "suffix e (collapsed w')" by auto
    with snoc w show ?thesis by simp
  qed
qed

lemma leadingSpace_collapsed:
  assumes "leadingSpace w = 0"
  shows "leadingSpace (collapsed w) = 0"
proof -
  have "\<not> prefix e (collapsed w)" if e: "e \<in> set spaceRunes" for e
  proof
    assume p: "prefix e (collapsed w)"
    from e have ne: "e \<noteq> []" by (rule spaceRunes_props)
    with p obtain c cs where w: "w = c # cs" by (cases w) (auto simp: collapsed_Nil)
    have nws: "\<not> wsChar c"
    proof
      assume "wsChar c"
      then have "[c] \<in> set spaceRunes" by (rule wsChar_spaceRune)
      with assms w show False by (auto simp: leadingSpace_zero_iff)
    qed
    from ne obtain x e' where e': "e = x # e'" by (cases e) auto
    with p w nws have "x = c" "prefix e' (collapsed cs)" by (auto simp: collapsed_Cons)
    moreover from e e' have "\<forall>c \<in> set e'. \<not> wsChar c" using spaceRunes_props(4) by fastforce
    ultimately have "prefix e w" using e' w by (simp add: prefix_collapsed)
    with assms e show False by (simp add: leadingSpace_zero_iff)
  qed
  then show ?thesis by (simp add: leadingSpace_zero_iff)
qed

lemma trailingSpace_collapsed:
  assumes "trailingSpace w = 0"
  shows "trailingSpace (collapsed w) = 0"
proof -
  have "\<not> suffix e (collapsed w)" if e: "e \<in> set spaceRunes" for e
  proof
    assume p: "suffix e (collapsed w)"
    from e have ne: "e \<noteq> []" by (rule spaceRunes_props)
    with p have "w \<noteq> []" by (auto simp: collapsed_Nil)
    then obtain w' c where w: "w = w' @ [c]" by (cases w rule: rev_cases) auto
    have nws: "\<not> wsChar c"
    proof
      assume "wsChar c"
      then have "[c] \<in> set spaceRunes" by (rule wsChar_spaceRune)
      with assms w show False by (auto simp: trailingSpace_zero_iff)
    qed
    then have cw: "collapsed w = collapsed w' @ [c]"
      using w collapsed_append_hd [of "[c]" w'] by (simp add: collapsed_Cons collapsed_Nil)
    from ne obtain e' x where e': "e = e' @ [x]" by (cases e rule: rev_cases) auto
    with p cw have "x = c" "suffix e' (collapsed w')" by auto
    moreover from e e' have "\<forall>c \<in> set e'. \<not> wsChar c" using spaceRunes_props(5) by fastforce
    ultimately have "suffix e w" using e' w by (simp add: suffix_collapsed)
    with assms e show False by (simp add: trailingSpace_zero_iff)
  qed
  then show ?thesis by (simp add: trailingSpace_zero_iff)
qed

lemma clearText_eq: "clearText x = collapsed (TrimSpace (stripped x))"
  by (simp add: clearText_def)

lemma clearText_no_edges:
  "leadingSpace (clearText x) = 0" "trailingSpace (clearText x) = 0"
  by (simp_all add: clearText_eq leadingSpace_collapsed trailingSpace_collapsed
      leadingSpace_TrimSpace trailingSpace_TrimSpace)

lemma stripped_induct [case_names Nil copy match]:
  assumes "P []"
    and "\<And>c cs. matchAt textCleanRegex (c # cs) = None \<Longrightarrow> P cs \<Longrightarrow> P (c # cs)"
    and "\<And>c cs r. matchAt textCleanRegex (c # cs) = Some r \<Longrightarrow> P r \<Longrightarrow> P (c # cs)"
  shows "P s"
proof (induction "length s" arbitrary: s rule: less_induct)
  case less
  show ?case
  proof (cases s)
    case Nil
    with assms(1) show ?thesis by simp
  next
    case (Cons c cs)
    show ?thesis
    proof (cases "matchAt textCleanRegex (c # cs)")
      case None
      with Cons assms(2) less show ?thesis by simp
    next
      case (Some r)
      then have "length r < length (c # cs)" by (rule matchAt_textClean_shorter)
      then have "length r < length s" using Cons by simp
      with Some Cons assms(3) less show ?thesis by simp
    qed
  qed
qed

lemma length_stripped: "length (stripped s) \<le> length s"
proof (induction s rule: stripped_induct)
  case Nil
  show ?case by (simp add: stripped_Nil)
next
  case (copy c cs)
  then show ?case by (simp add: stripped_Cons)
next
  case (match c cs r)
  from match(1) have "length r < length (c # cs)" by (rule matchAt_textClean_shorter)
  with match show ?case by (simp add: stripped_Cons)
qed

lemma stripped_same_length: "length (stripped s) = length s \<Longrightarrow> stripped s = s"
proof (induction s rule: stripped_induct)
  case Nil
  show ?case by (simp add: stripped_Nil)
next
  case (copy c cs)
  then show ?case by (simp add: stripped_Cons)
next
  case (match c cs r)
  from match(1) have "length r < length (c # cs)" by (rule matchAt_textClean_shorter)
  moreover have "length (stripped r) \<le> length r" by (rule length_stripped)
  ultimately show ?case using match by (simp add: stripped_Cons)
qed










lemma bareTagI: "x \<noteq> [] \<Longrightarrow> list_all tagChar x \<Longrightarrow> bareTag (CHR ''<'' # x @ ''>'')"
  unfolding bareTag_iff by blast


subsection \<open>Kept tags, fixed points of the two passes, and the characters of the output\<close>








lemma marker_start_is_tag: "markerAt s \<noteq> None \<Longrightarrow> tagAt s \<noteq> None"
proof -
  assume "markerAt s \<noteq> None"
  then obtain r ds where "s = ''<S>'' @ ds @ ''</S>'' @ r" by (auto simp: markerAt_Some)
  then have "tagAt s = Some (ds @ ''</S>'' @ r)"
    by (subst tagAt_Some) (auto simp: tagChar_def intro!: exI [of _ "''S''"])
  then show ?thesis by simp
qed

lemma matchAt_None_iff: "matchAt textCleanRegex s = None \<longleftrightarrow> tagAt s = None"
  using marker_start_is_tag [of s] by (auto simp: matchAt_textCleanRegex split: option.splits)

lemma stripped_no_tag: "\<not> hasBareTag y \<Longrightarrow> stripped y = y"
  by (induction y) (simp_all add: stripped_Nil stripped_Cons matchAt_None_iff [THEN iffD2])

lemma stripped_shorter: "hasBareTag y \<Longrightarrow> length (stripped y) < length y"
proof (induction y rule: stripped_induct)
  case Nil
  then show ?case by simp
next
  case (copy c cs)
  from copy(1) have "tagAt (c # cs) = None" by (simp add: matchAt_None_iff)
  with copy show ?case by (simp add: stripped_Cons)
next
  case (match c cs r)
  from match(1) have "length r < length (c # cs)" by (rule matchAt_textClean_shorter)
  moreover have "length (stripped r) \<le> length r" by (rule length_stripped)
  ultimately show ?case using match(1) by (simp add: stripped_Cons)
qed

lemma stripped_fixed_iff: "stripped y = y \<longleftrightarrow> \<not> hasBareTag y"
  using stripped_no_tag [of y] stripped_shorter [of y] by auto

lemma hasBareTag_iff: "hasBareTag y \<longleftrightarrow> (\<exists>u t v. y = u @ t @ v \<and> bareTag t)"
proof
  show "hasBareTag y \<Longrightarrow> \<exists>u t v. y = u @ t @ v \<and> bareTag t"
  proof (induction y)
    case Nil
    then show ?case by simp
  next
    case (Cons c cs)
    show ?case
    proof (cases "tagAt (c # cs)")
      case (Some r)
      then obtain x where x: "x \<noteq> []" "list_all tagChar x" "c # cs = CHR ''<'' # x @ CHR ''>'' # r"
        by (auto simp: tagAt_Some)
      from x(1,2) have "bareTag (CHR ''<'' # x @ ''>'')" by (rule bareTagI)
      moreover from x(3) have "c # cs = [] @ (CHR ''<'' # x @ ''>'') @ r" by simp
      ultimately show ?thesis by blast
    next
      case None
      with Cons obtain u t v where "cs = u @ t @ v" "bareTag t" by auto
      then have "c # cs = (c # u) @ t @ v \<and> bareTag t" by simp
      then show ?thesis by blast
    qed
  qed
next
  assume "\<exists>u t v. y = u @ t @ v \<and> bareTag t"
  then obtain u t v where y: "y = u @ t @ v" and t: "bareTag t" by blast
  from t obtain x where x: "x \<noteq> []" "list_all tagChar x" "t = CHR ''<'' # x @ ''>''"
    by (auto simp: bareTag_iff)
  then have "tagAt (t @ v) = Some v" by (subst tagAt_Some) auto
  with x(3) have "hasBareTag (t @ v)" by simp
  then have "hasBareTag (u @ t @ v)" by (induction u) simp_all
  with y show "hasBareTag y" by simp
qed

lemma matchAt_textClean_suffix: "matchAt textCleanRegex s = Some r \<Longrightarrow> \<exists>m. s = m @ r"
  by (auto simp: matchAt_textCleanRegex markerAt_Some tagAt_Some split: option.splits)

lemma set_stripped: "set (stripped s) \<subseteq> set s"
proof (induction s rule: stripped_induct)
  case Nil
  show ?case by (simp add: stripped_Nil)
next
  case (copy c cs)
  then show ?case by (auto simp: stripped_Cons)
next
  case (match c cs r)
  from match(1) obtain m where "c # cs = m @ r" using matchAt_textClean_suffix by blast
  then have "set r \<subseteq> set (c # cs)" by (metis set_append sup_ge2)
  with match show ?case by (auto simp: stripped_Cons)
qed

lemma suffix_TrimLeft: "suffix (TrimLeft s) s"
proof (induction s rule: TrimLeft.induct)
  case (1 s)
  show ?case
  proof (cases "leadingSpace s = 0")
    case True
    then show ?thesis by (simp add: TrimLeft_id)
  next
    case False
    with 1 have "suffix (TrimLeft (drop (leadingSpace s) s)) (drop (leadingSpace s) s)" by simp
    then have "suffix (TrimLeft (drop (leadingSpace s) s)) s"
      using suffix_drop suffix_order.order_trans by blast
    with False show ?thesis by (subst TrimLeft.simps) simp
  qed
qed

lemma set_TrimSpace: "set (TrimSpace s) \<subseteq> set s"
proof -
  have "set (TrimRight (TrimLeft s)) \<subseteq> set (TrimLeft s)"
    using prefix_TrimRight by (rule set_mono_prefix)
  moreover have "set (TrimLeft s) \<subseteq> set s"
    using suffix_TrimLeft by (rule set_mono_suffix)
  ultimately show ?thesis by (simp add: TrimSpace_def)
qed

lemma set_collapsed: "set (collapsed s) \<subseteq> insert CHR '' '' (set s)"
proof (induction s rule: collapsed_induct)
  case Nil
  show ?case by (simp add: collapsed_Nil)
next
  case (ws c cs)
  have "set (dropWhile wsChar cs) \<subseteq> set cs" by (simp add: set_dropWhileD subsetI)
  with ws show ?case by (auto simp: collapsed_Cons)
next
  case (other c cs)
  then show ?case by (auto simp: collapsed_Cons)
qed

lemma set_clearText: "set (clearText x) \<subseteq> insert CHR '' '' (set x)"
  unfolding clearText_eq
  using set_collapsed [of "TrimSpace (stripped x)"] set_TrimSpace [of "stripped x"]
    set_stripped [of x] by blast

lemma no_angle_no_tag: "CHR ''<'' \<notin> set y \<Longrightarrow> \<not> hasBareTag y"
  by (induction y) (auto simp: tagAt_def)

lemma clearText_idempotent_stripped:
  "clearText (clearText x) = clearText x \<longleftrightarrow> stripped (clearText x) = clearText x"
proof
  assume fp: "stripped (clearText x) = clearText x"
  have "clearText (clearText x) = collapsed (TrimSpace (clearText x))"
    by (subst clearText_eq) (simp only: fp)
  also have "TrimSpace (clearText x) = clearText x"
    by (rule TrimSpace_id) (rule clearText_no_edges)+
  also have "collapsed (clearText x) = clearText x"
    unfolding clearText_eq by (rule collapsed_idem)
  finally show "clearText (clearText x) = clearText x" .
next
  assume idem: "clearText (clearText x) = clearText x"
  let ?y = "clearText x"
  have "length (clearText ?y) \<le> length (TrimSpace (stripped ?y))"
    unfolding clearText_eq [of ?y] by (rule length_collapsed)
  also have "\<dots> \<le> length (stripped ?y)" by (rule length_TrimSpace)
  finally have "length ?y \<le> length (stripped ?y)" using idem by simp
  with length_stripped [of ?y] have "length (stripped ?y) = length ?y" by simp
  then show "stripped ?y = ?y" by (rule stripped_same_length)
qed

section \<open>The handlers on a path\<close>

lemma Split_plain: "c \<notin> set s \<Longrightarrow> Split s c = [s]"
  by (induction s) auto

lemma Split_sep: "c \<notin> set a \<Longrightarrow> Split (a @ c # b) c = a # Split b c"
  by (induction a) auto

lemma Trim_verse_path:
  assumes "name \<noteq> []" "CHR ''/'' \<notin> set name"
  shows "Trim (''/get-random-verse/'' @ name) CHR ''/'' = ''get-random-verse/'' @ name"
proof -
  have "last name \<noteq> CHR ''/''" using assms last_in_set by metis
  then have "hd (rev name) \<noteq> CHR ''/''" using assms(1) by (simp add: hd_rev)
  then have "dropWhile (\<lambda>x. x = CHR ''/'') (rev name @ rev ''get-random-verse/'') =
      rev name @ rev ''get-random-verse/''"
    using assms(1) by (cases "rev name") auto
  then have "rev (dropWhile (\<lambda>x. x = CHR ''/'') (rev (''get-random-verse/'' @ name))) =
      ''get-random-verse/'' @ name"
    by (simp only: rev_append rev_rev_ident)
  then show ?thesis by (simp add: Trim_def)
qed

lemma verse_path_parts:
  assumes "name \<noteq> []" "CHR ''/'' \<notin> set name"
  shows "Split (Trim (''/get-random-verse/'' @ name) CHR ''/'') CHR ''/'' = [''get-random-verse'', name]"
proof -
  have "Split (''get-random-verse'' @ CHR ''/'' # name) CHR ''/'' = ''get-random-verse'' # Split name CHR ''/''"
    by (rule Split_sep) simp
  then show ?thesis
    unfolding Trim_verse_path [OF assms] using Split_plain [OF assms(2)] by simp
qed

lemma header_cors:
  "map_of (header (headerSet ''Content-Type'' ''application/json''
     (headerSet ''Access-Control-Allow-Headers'' ''Content-Type''
       (headerSet ''Access-Control-Allow-Methods'' ''GET, OPTIONS''
         (headerSet ''Access-Control-Allow-Origin'' ''*'' newResponse))))) ''Content-Type''
   = Some ''application/json''"
  by (simp add: headerSet_def newResponse_def)

lemma respondWithError_simps:
  "status w = None \<Longrightarrow> status (respondWithError w message code) = Some code"
  "body w = [] \<Longrightarrow> body (respondWithError w message code) = Encode True (errorJson message)"
  "map_of (header (respondWithError w message code)) ''Content-Type'' = Some ''application/json''"
  by (simp_all add: respondWithError_def Write_def WriteHeader_def headerSet_def Let_def update_conv')

lemma corsHeaders_simps: "status corsHeaders = None" "body corsHeaders = []"
  by (simp_all add: corsHeaders_def headerSet_def newResponse_def)

lemma verseRoute_eq:
  "Method r \<noteq> ''OPTIONS'' \<Longrightarrow>
     verseRoute dbPool queryRow r = getRandomVerseHandler dbPool queryRow corsHeaders r"
  by (simp add: verseRoute_def corsMiddleware_def loggingMiddleware_def corsHeaders_def Let_def)

lemma healthRoute_eq:
  "Method r \<noteq> ''OPTIONS'' \<Longrightarrow> healthRoute dbPool r = healthHandler dbPool corsHeaders r"
  by (simp add: healthRoute_def corsMiddleware_def loggingMiddleware_def corsHeaders_def Let_def)

lemma Encode_errorJson:
  \<open>Encode True (errorJson message) = ''{"error":'' @ quoted True message @ ''}'' @ [CHR 0x0A]\<close>
  by (simp add: Encode_def errorJson_def quoted_def escapeAscii_def htmlSafeSet_def safeSet_def)

lemma registry_names:
  "name \<in> fst ` set translations_map \<Longrightarrow>
     name \<noteq> [] \<and> CHR ''/'' \<notin> set name \<and> map_of translations_map name \<noteq> None"
  by (auto simp: translations_map_def)

lemma initLoop_missing:
  assumes "\<forall>(n, f) \<in> set entries. n = name \<longrightarrow> fileMissing e f" "map_of dbPool name = None"
  shows "map_of (fst (snd (initLoop e entries (dbPool, trace)))) name = None"
  using assms
proof (induction entries arbitrary: dbPool trace)
  case Nil
  then show ?case by simp
next
  case (Cons entry rest)
  obtain n f where entry: "entry = (n, f)" by (cases entry)
  from Cons.prems(1) have rest: "\<forall>(n, f) \<in> set rest. n = name \<longrightarrow> fileMissing e f" by simp
  show ?case
  proof (cases "fileMissing e f")
    case True
    with entry Cons.IH [OF rest Cons.prems(2)] show ?thesis by simp
  next
    case False
    with Cons.prems(1) entry have neq: "n \<noteq> name" by auto
    show ?thesis
    proof (cases "sqlOpen e (''file:'' @ f @ ''?mode=ro&cache=shared'')")
      case (Inl err)
      with False entry Cons.prems(2) show ?thesis by simp
    next
      case (Inr db)
      from neq Cons.prems(2) have "map_of (AList.update n db dbPool) name = None"
        by (simp add: update_conv')
      from Cons.IH [OF rest this] Cons.IH [OF rest Cons.prems(2)] False entry Inr
      show ?thesis by simp
    qed
  qed
qed

lemma missing_file_not_pooled:
  assumes "\<forall>(n, f) \<in> set entries. n = name \<longrightarrow> fileMissing e f"
  shows "map_of (fst (snd (initDatabases e entries))) name = None"
proof -
  have "map_of (fst (snd (initLoop e entries ([], [])))) name = None"
    using assms by (intro initLoop_missing) simp_all
  then show ?thesis
    by (auto simp: initDatabases_def split: prod.splits option.splits)
qed

section \<open>The characters \<^verbatim>\<open><\<close>, \<^verbatim>\<open>>\<close> and \<^verbatim>\<open>&\<close> in the output of the encoder\<close>

lemma htmlChar_simps [simp]:
  "htmlChar c \<longleftrightarrow> c = CHR ''<'' \<or> c = CHR ''>'' \<or> c = CHR ''&''"
  by (auto simp: htmlChar_def)

lemma hex_plain: "\<not> htmlChar (hex n)"
proof -
  have "n mod 16 < length ''0123456789abcdef''" by simp
  then have "hex n \<in> set ''0123456789abcdef''" unfolding hex_def by (rule nth_mem)
  then show ?thesis by auto
qed

lemma html_safe: "htmlChar b \<Longrightarrow> safeSet b \<and> \<not> htmlSafeSet b"
  by (auto simp: safeSet_def htmlSafeSet_def)

lemma hex_filter:
  "filter htmlChar [CHR 0x5C, CHR ''u'', CHR ''0'', CHR ''0'', hex x, hex y] = []"
  using hex_plain [of x] hex_plain [of y] by simp

lemma escapeAscii_escape:
  assumes "\<not> (htmlSafeSet b \<or> \<not> e \<and> safeSet b)"
  shows "filter htmlChar (escapeAscii e b) = []"
proof -
  have e: "escapeAscii e b =
     (if b = CHR 0x5C \<or> b = CHR 0x22 then [CHR 0x5C, b]
      else if b = CHR 0x08 then [CHR 0x5C, CHR ''b'']
      else if b = CHR 0x0C then [CHR 0x5C, CHR ''f'']
      else if b = CHR 0x0A then [CHR 0x5C, CHR ''n'']
      else if b = CHR 0x0D then [CHR 0x5C, CHR ''r'']
      else if b = CHR 0x09 then [CHR 0x5C, CHR ''t'']
      else [CHR 0x5C, CHR ''u'', CHR ''0'', CHR ''0'', hex (of_char b div 16), hex (of_char b mod 16)])"
    using assms by (simp only: escapeAscii_def if_False)
  show ?thesis unfolding e
    by (simp only: hex_filter split: if_split) auto
qed

lemma escapeAscii_False: "filter htmlChar (escapeAscii False b) = filter htmlChar [b]"
proof (cases "safeSet b")
  case True
  then show ?thesis by (simp only: escapeAscii_def simp_thms if_True)
next
  case False
  then have nh: "\<not> htmlChar b" using html_safe by blast
  from False have "\<not> (htmlSafeSet b \<or> \<not> False \<and> safeSet b)" by (simp add: htmlSafeSet_def)
  then have "filter htmlChar (escapeAscii False b) = []" by (rule escapeAscii_escape)
  with nh show ?thesis by (simp only: filter.simps if_False)
qed

lemma escapeAscii_True: "filter htmlChar (escapeAscii True b) = []"
proof (cases "htmlSafeSet b")
  case True
  then have "\<not> htmlChar b" using html_safe by blast
  with True show ?thesis by (simp only: escapeAscii_def simp_thms if_True filter.simps if_False)
next
  case False
  then have "\<not> (htmlSafeSet b \<or> \<not> True \<and> safeSet b)" by simp
  then show ?thesis by (rule escapeAscii_escape)
qed

declare htmlChar_simps [simp del]

lemma high_plain: "\<not> (of_char c :: nat) < 0x80 \<Longrightarrow> \<not> htmlChar c"
  by (auto simp: htmlChar_simps)

lemma continuation_plain: "continuation c \<Longrightarrow> \<not> htmlChar c"
  by (rule high_plain) (simp add: continuation_def)

lemma between_plain: "between lo c hi \<Longrightarrow> 0x80 \<le> lo \<Longrightarrow> \<not> htmlChar c"
  by (rule high_plain) (simp add: between_def)

lemma take_rune:
  "take 2 (b # b1 # r) = [b, b1]"
  "take 3 (b # b1 # b2 # r) = [b, b1, b2]"
  "take 4 (b # b1 # b2 # b3 # r) = [b, b1, b2, b3]"
  by (simp_all add: numeral_2_eq_2 numeral_3_eq_3 numeral_Bit0 [of "Num.Bit0 Num.One"])

lemma rune_plain:
  assumes "\<not> (of_char b :: nat) < 0x80"
  shows "filter htmlChar (take (runeWidth (b # bs)) (b # bs)) = []"
proof -
  note b = high_plain [OF assms]
  show ?thesis
  proof (cases "between 0xC2 b 0xDF")
    case True
    with assms have w: "runeWidth (b # bs) =
        (case bs of b1 # _ \<Rightarrow> if continuation b1 then 2 else 0 | _ \<Rightarrow> 0)"
      by (simp only: runeWidth.simps Let_def if_False if_True)
    show ?thesis
    proof (cases bs)
      case Nil
      with w show ?thesis by simp
    next
      case (Cons b1 r)
      show ?thesis
      proof (cases "continuation b1")
        case True
        with w Cons have "runeWidth (b # bs) = 2" by simp
        with Cons b continuation_plain [OF True]
        have "filter htmlChar (take 2 (b # bs)) = []" by (simp add: take_rune)
        then show ?thesis by (simp only: \<open>runeWidth (b # bs) = 2\<close>)
      next
        case False
        with w Cons show ?thesis by simp
      qed
    qed
  next
    case c2: False
    show ?thesis
    proof (cases "between 0xE0 b 0xEF")
      case True
      let ?ok = "\<lambda>b1. between (if (of_char b :: nat) = 0xE0 then 0xA0 else 0x80) b1
          (if (of_char b :: nat) = 0xED then 0x9F else 0xBF)"
      from assms c2 True have w: "runeWidth (b # bs) =
          (case bs of b1 # b2 # _ \<Rightarrow> if ?ok b1 \<and> continuation b2 then 3 else 0 | _ \<Rightarrow> 0)"
        by (simp only: runeWidth.simps Let_def if_False if_True)
      show ?thesis
      proof (cases bs)
        case Nil
        with w show ?thesis by simp
      next
        case c1: (Cons b1 r)
        show ?thesis
        proof (cases r)
          case Nil
          with w c1 show ?thesis by simp
        next
          case (Cons b2 r')
          show ?thesis
          proof (cases "?ok b1 \<and> continuation b2")
            case True
            with w c1 Cons have 3: "runeWidth (b # bs) = 3" by simp
            from True have "\<not> htmlChar b1" by (intro between_plain [of _ b1]) auto
            moreover from True have "\<not> htmlChar b2" by (intro continuation_plain) simp
            ultimately have "filter htmlChar (take 3 (b # bs)) = []"
              using b c1 Cons by (simp add: take_rune)
            then show ?thesis by (simp only: 3)
          next
            case False
            with w c1 Cons show ?thesis by simp
          qed
        qed
      qed
    next
      case c3: False
      show ?thesis
      proof (cases "between 0xF0 b 0xF4")
        case True
        let ?ok = "\<lambda>b1. between (if (of_char b :: nat) = 0xF0 then 0x90 else 0x80) b1
            (if (of_char b :: nat) = 0xF4 then 0x8F else 0xBF)"
        from assms c2 c3 True have w: "runeWidth (b # bs) =
            (case bs of b1 # b2 # b3 # _ \<Rightarrow>
               if ?ok b1 \<and> continuation b2 \<and> continuation b3 then 4 else 0 | _ \<Rightarrow> 0)"
          by (simp only: runeWidth.simps Let_def if_False if_True)
        show ?thesis
        proof (cases bs)
          case Nil
          with w show ?thesis by simp
        next
          case c1: (Cons b1 r)
          show ?thesis
          proof (cases r)
            case Nil
            with w c1 show ?thesis by simp
          next
            case c2: (Cons b2 r')
            show ?thesis
            proof (cases r')
              case Nil
              with w c1 c2 show ?thesis by simp
            next
              case (Cons b3 r'')
              show ?thesis
              proof (cases "?ok b1 \<and> continuation b2 \<and> continuation b3")
                case True
                with w c1 c2 Cons have 4: "runeWidth (b # bs) = 4" by simp
                from True have "\<not> htmlChar b1" by (intro between_plain [of _ b1]) auto
                moreover from True have "\<not> htmlChar b2" by (intro continuation_plain) simp
                moreover from True have "\<not> htmlChar b3" by (intro continuation_plain) simp
                ultimately have "filter htmlChar (take 4 (b # bs)) = []"
                  using b c1 c2 Cons by (simp add: take_rune)
                then show ?thesis by (simp only: 4)
              next
                case False
                with w c1 c2 Cons show ?thesis by simp
              qed
            qed
          qed
        qed
      next
        case False
        with assms c2 c3 have "runeWidth (b # bs) = 0"
          by (simp only: runeWidth.simps Let_def if_False if_True)
        then show ?thesis by simp
      qed
    qed
  qed
qed

declare appendString.simps(2) [simp del]

lemma plain_chars:
  "\<not> htmlChar (CHR 0x5C)" "\<not> htmlChar CHR ''u''" "\<not> htmlChar CHR ''f''"
  "\<not> htmlChar CHR ''d''" "\<not> htmlChar CHR ''2''" "\<not> htmlChar CHR ''0''"
  "\<not> htmlChar CHR ''8''" "\<not> htmlChar CHR ''9''" "\<not> htmlChar (CHR 0xE2)"
  "\<not> htmlChar (CHR 0x80)" "\<not> htmlChar (CHR 0xA8)" "\<not> htmlChar (CHR 0xA9)"
  by (simp_all add: htmlChar_simps)

lemma drop_rune: "w \<noteq> 0 \<Longrightarrow> drop (w - 1) bs = drop w (b # bs)"
  by (cases w) simp_all

lemma filter_split: "filter P (take w s) @ filter P (drop w s) = filter P s"
  by (simp only: filter_append [symmetric] append_take_drop_id)

lemma appendString_html:
  "filter htmlChar (appendString e s) = (if e then [] else filter htmlChar s)"
proof (induction e s rule: appendString.induct)
  case (1 e)
  show ?case by simp
next
  case (2 e b bs)
  let ?w = "runeWidth (b # bs)"
  let ?sep = "\<lambda>x. take 3 (b # bs) = [CHR 0xE2, CHR 0x80, x]"
  have sep: "filter htmlChar (b # bs) = filter htmlChar (drop 2 bs)" if "?sep x" "\<not> htmlChar x" for x
  proof -
    have "filter htmlChar (take 3 (b # bs)) = []"
      using that by (simp add: plain_chars)
    with filter_split [of htmlChar 3 "b # bs"]
    have "filter htmlChar (b # bs) = filter htmlChar (drop 3 (b # bs))" by simp
    also have "drop 3 (b # bs) = drop 2 bs" by (simp add: numeral_3_eq_3 numeral_2_eq_2)
    finally show ?thesis .
  qed
  show ?case
  proof (cases "(of_char b :: nat) < 0x80")
    case True
    then have "appendString e (b # bs) = escapeAscii e b @ appendString e bs"
      by (simp only: appendString.simps(2) if_True simp_thms)
    with 2(1) [OF True] escapeAscii_True [of b] escapeAscii_False [of b] show ?thesis
      by (cases e) simp_all
  next
    case high: False
    show ?thesis
    proof (cases "?w = 0")
      case True
      with high have "appendString e (b # bs) =
          [CHR 0x5C, CHR ''u'', CHR ''f'', CHR ''f'', CHR ''f'', CHR ''d''] @ appendString e bs"
        by (simp only: appendString.simps(2) if_True if_False simp_thms)
      with 2(2) [OF high True] high_plain [OF high] show ?thesis
        by (simp add: plain_chars)
    next
      case w: False
      show ?thesis
      proof (cases "?sep (CHR 0xA8)")
        case True
        with high w have "appendString e (b # bs) =
            [CHR 0x5C, CHR ''u'', CHR ''2'', CHR ''0'', CHR ''2'', CHR ''8''] @
            appendString e (drop 2 bs)"
          by (simp only: appendString.simps(2) if_True if_False simp_thms)
        moreover have "filter htmlChar (b # bs) = filter htmlChar (drop 2 bs)"
          using True by (rule sep) (simp add: plain_chars)
        ultimately show ?thesis using 2(3) [OF high w True]
          by (simp add: plain_chars)
      next
        case a8: False
        show ?thesis
        proof (cases "?sep (CHR 0xA9)")
          case True
          with high w a8 have "appendString e (b # bs) =
              [CHR 0x5C, CHR ''u'', CHR ''2'', CHR ''0'', CHR ''2'', CHR ''9''] @
              appendString e (drop 2 bs)"
            by (simp only: appendString.simps(2) if_True if_False simp_thms)
          moreover have "filter htmlChar (b # bs) = filter htmlChar (drop 2 bs)"
            using True by (rule sep) (simp add: plain_chars)
          ultimately show ?thesis using 2(4) [OF high w a8 True]
            by (simp add: plain_chars)
        next
          case a9: False
          with high w a8 have "appendString e (b # bs) =
              take ?w (b # bs) @ appendString e (drop (?w - 1) bs)"
            by (simp only: appendString.simps(2) if_True if_False simp_thms)
          then have "filter htmlChar (appendString e (b # bs)) =
              filter htmlChar (take ?w (b # bs)) @ (if e then [] else filter htmlChar (drop ?w (b # bs)))"
            using 2(5) [OF high w a8 a9] drop_rune [OF w, of bs b] by simp
          with rune_plain [OF high, of bs] filter_split [of htmlChar ?w "b # bs"]
          show ?thesis by (cases e) simp_all
        qed
      qed
    qed
  qed
qed

declare decimal.simps [simp del]

lemma quoted_html: "filter htmlChar (quoted e s) = (if e then [] else filter htmlChar s)"
  by (simp add: quoted_def appendString_html htmlChar_simps)

lemma decimal_plain: "filter htmlChar (decimal n) = []"
proof (induction n rule: decimal.induct)
  case (1 n)
  show ?case
  proof (cases "n < 10")
    case True
    then have "decimal n = [hex n]" by (subst decimal.simps) simp
    with hex_plain [of n] show ?thesis by simp
  next
    case False
    then have "decimal n = decimal (n div 10) @ [hex (n mod 10)]" by (subst decimal.simps) simp
    with 1 [OF False] hex_plain [of "n mod 10"] show ?thesis by simp
  qed
qed

lemma itoa_plain: "filter htmlChar (itoa i) = []"
  by (simp add: itoa_def decimal_plain htmlChar_simps)

lemma commas_html: "filter htmlChar (commas xs) = concat (map (filter htmlChar) xs)"
  by (induction xs rule: commas.induct) (simp_all add: htmlChar_simps)

lemma marshal_html:
  "filter htmlChar (marshal e j) = (if e then [] else filter htmlChar (payload j))"
proof (induction j)
  case (JString s)
  show ?case by (simp add: quoted_html)
next
  case (JInt i)
  show ?case by (simp add: itoa_plain)
next
  case (JArray xs)
  have "filter htmlChar (marshal e (JArray xs)) = concat (map (\<lambda>x. filter htmlChar (marshal e x)) xs)"
    by (simp add: commas_html htmlChar_simps comp_def)
  also have "\<dots> = concat (map (\<lambda>x. if e then [] else filter htmlChar (payload x)) xs)"
    using JArray by (simp cong: map_cong)
  also have "\<dots> = (if e then [] else filter htmlChar (payload (JArray xs)))"
    by (simp add: filter_concat comp_def)
  finally show ?case .
next
  case (JObject kvs)
  have "filter htmlChar (marshal e (JObject kvs)) =
      concat (map (\<lambda>kv. filter htmlChar (quoted e (fst kv)) @ filter htmlChar (marshal e (snd kv))) kvs)"
    by (simp add: commas_html htmlChar_simps comp_def)
  also have "\<dots> = concat (map (\<lambda>kv. if e then [] else filter htmlChar (fst kv @ payload (snd kv))) kvs)"
  proof -
    have "filter htmlChar (marshal e (snd kv)) = (if e then [] else filter htmlChar (payload (snd kv)))"
      if "kv \<in> set kvs" for kv
    proof -
      have "snd kv \<in> Basic_BNFs.snds kv" by (cases kv) simp
      with that show ?thesis by (rule JObject)
    qed
    then show ?thesis by (cases e) (simp_all add: quoted_html cong: map_cong)
  qed
  also have "\<dots> = (if e then [] else filter htmlChar (payload (JObject kvs)))"
    by (simp add: filter_concat comp_def)
  finally show ?case .
qed

lemma Encode_html:
  "filter htmlChar (Encode e j) = (if e then [] else filter htmlChar (payload j))"
  by (simp add: Encode_def marshal_html htmlChar_simps)

declare appendString.simps(2) [simp]

declare decimal.simps [simp]

section \<open>The responses of the two routes\<close>

lemma payload_verseJson:
  "filter htmlChar (payload (verseJson v)) =
     filter htmlChar (Translation v @ BookTitle v @ BookTitleShort v @ Text v)"
  by (simp add: verseJson_def htmlChar_simps)

lemma getRandomVerseHandler_cases:
  "(\<exists>message code. code \<in> {400, 404, 500, 503} \<and>
      fst (getRandomVerseHandler dbPool queryRow w r) = respondWithError w message code) \<or>
   (\<exists>name db found. map_of dbPool name = Some db \<and> queryRow db = Inr found \<and>
      fst (getRandomVerseHandler dbPool queryRow w r) =
        Write (Encode False (verseJson
          \<lparr>Translation = name, BookNumber = row_book_number found,
           BookTitle = row_long_name found, BookTitleShort = row_short_name found,
           Chapter = row_chapter found, Verse = row_verse found,
           Text = clearText (row_text found)\<rparr>))
          (headerSet ''Content-Type'' ''application/json'' w))"
proof -
  let ?parts = "Split (Trim (Path r) CHR ''/'') CHR ''/''"
  let ?name = "?parts ! 1"
  show ?thesis
  proof (cases "length ?parts \<noteq> 2")
    case True
    then have "fst (getRandomVerseHandler dbPool queryRow w r) = respondWithError w ''Invalid URL format'' 400"
      by (simp add: getRandomVerseHandler_def)
    then show ?thesis by blast
  next
    case len: False
    show ?thesis
    proof (cases "map_of translations_map ?name = None")
      case True
      with len have "fst (getRandomVerseHandler dbPool queryRow w r) =
          respondWithError w (''Translation '' @ [CHR 0x27] @ ?name @ [CHR 0x27] @ '' not found'') 404"
        by (simp add: getRandomVerseHandler_def Let_def)
      then show ?thesis by blast
    next
      case False
      then obtain dsn where known: "map_of translations_map ?name = Some dsn" by auto
      show ?thesis
      proof (cases "map_of dbPool ?name")
        case None
        with len known have "fst (getRandomVerseHandler dbPool queryRow w r) =
            respondWithError w (''Database for translation '' @ [CHR 0x27] @ ?name @ [CHR 0x27] @
                   '' is not available'') 503"
          by (simp add: getRandomVerseHandler_def Let_def)
        then show ?thesis by blast
      next
        case (Some db)
        show ?thesis
        proof (cases "queryRow db")
          case (Inl err)
          with len known Some have "fst (getRandomVerseHandler dbPool queryRow w r) =
              respondWithError w ''Failed to retrieve verse'' 500"
            by (simp add: getRandomVerseHandler_def Let_def)
          then show ?thesis by blast
        next
          case (Inr found)
          with len known Some have "fst (getRandomVerseHandler dbPool queryRow w r) =
              Write (Encode False (verseJson
                \<lparr>Translation = ?name, BookNumber = row_book_number found,
                 BookTitle = row_long_name found, BookTitleShort = row_short_name found,
                 Chapter = row_chapter found, Verse = row_verse found,
                 Text = clearText (row_text found)\<rparr>))
                (headerSet ''Content-Type'' ''application/json'' w)"
            by (simp add: getRandomVerseHandler_def Let_def)
          with Some Inr show ?thesis by blast
        qed
      qed
    qed
  qed
qed


lemma written_simps:
  "map_of (header (Write bs (headerSet ''Content-Type'' ''application/json'' corsHeaders)))
     ''Content-Type'' = Some ''application/json''"
  "statusCode (Write bs (headerSet ''Content-Type'' ''application/json'' corsHeaders)) = 200"
  "body (Write bs (headerSet ''Content-Type'' ''application/json'' corsHeaders)) = bs"
  by (simp_all add: Write_def WriteHeader_def headerSet_def corsHeaders_def newResponse_def
      statusCode_def Let_def update_conv')

lemma preflight_simps:
  "map_of (header (WriteHeader 200 corsHeaders)) ''Content-Type'' = None"
  "statusCode (WriteHeader 200 corsHeaders) = 200"
  "body (WriteHeader 200 corsHeaders) = []"
  by (simp_all add: WriteHeader_def headerSet_def corsHeaders_def newResponse_def
      statusCode_def update_conv')

lemma preflight_eq:
  assumes "Method r = ''OPTIONS''"
  shows "verseRoute dbPool queryRow r = (WriteHeader 200 corsHeaders, [])"
    and "healthRoute dbPool r = (WriteHeader 200 corsHeaders, [])"
  using assms
  by (simp_all add: verseRoute_def healthRoute_def corsMiddleware_def corsHeaders_def Let_def)

section \<open>The claims about the text normalizer\<close>

text \<open>
  Claim C8. On the input \<^verbatim>\<open><S>1</S>In the <a href="x">beginning</a>  God created\<close> the
  normalizer returns \<^verbatim>\<open>In the <a href="x">beginning</a> God created\<close>: the verse marker
  is removed, the anchor tag is kept and the double space becomes one space.
\<close>

theorem clearText_example:
  \<open>clearText ''<S>1</S>In the <a href="x">beginning</a>  God created'' =
     ''In the <a href="x">beginning</a> God created''\<close>
  by code_simp

text \<open>
  Claim C10. The normalizer never lengthens its input: the length of \<open>clearText x\<close>, in
  bytes, is at most the length of \<open>x\<close>.
\<close>

theorem clearText_never_longer: "length (clearText x) \<le> length x"
proof -
  have "length (clearText x) \<le> length (TrimSpace (stripped x))"
    unfolding clearText_eq by (rule length_collapsed)
  also have "\<dots> \<le> length (stripped x)" by (rule length_TrimSpace)
  also have "\<dots> \<le> length x" by (rule length_stripped)
  finally show ?thesis .
qed

text \<open>
  The white space of the output. The output of the normalizer neither begins nor ends with a
  rune that \<^verbatim>\<open>unicode.IsSpace\<close> accepts, and no two neighbouring characters of it are of
  the set \<^verbatim>\<open>\s\<close> (tab, line feed, form feed, carriage return, space).
\<close>

lemma clearText_whitespace_law:
  "leadingSpace (clearText x) = 0 \<and> trailingSpace (clearText x) = 0 \<and> \<not> wsRun (clearText x)"
  by (simp add: clearText_no_edges) (simp add: clearText_eq not_wsRun_collapsed)

text \<open>
  Claim C7 says that the output has no leading white space, no trailing white space and no run
  of two or more white space characters. The code does not keep this. Its two white space
  steps do not mean the same characters: \<^verbatim>\<open>strings.TrimSpace\<close> removes every rune
  \<^verbatim>\<open>unicode.IsSpace\<close> accepts, the vertical tab and U+00A0 among them, and
  \<^verbatim>\<open>whitespaceRegex\<close> is \<^verbatim>\<open>\s+\<close>, which in Go is tab, line feed, form feed, carriage
  return and space only. On \<^verbatim>\<open>a\<close>, two vertical tabs, \<^verbatim>\<open>b\<close> the normalizer returns its
  input, with the run of two white space characters in it, and likewise on \<^verbatim>\<open>a\<close>, two
  U+00A0 (bytes C2 A0), \<^verbatim>\<open>b\<close>; at the ends of a string the same characters are trimmed.
\<close>

theorem clearText_vertical_tabs:
  "clearText [CHR ''a'', CHR 0x0B, CHR 0x0B, CHR ''b''] = [CHR ''a'', CHR 0x0B, CHR 0x0B, CHR ''b''] \<and>
   spaceRun (clearText [CHR ''a'', CHR 0x0B, CHR 0x0B, CHR ''b'']) \<and>
   clearText [CHR ''a'', CHR 0xC2, CHR 0xA0, CHR 0xC2, CHR 0xA0, CHR ''b''] =
     [CHR ''a'', CHR 0xC2, CHR 0xA0, CHR 0xC2, CHR 0xA0, CHR ''b''] \<and>
   spaceRun (clearText [CHR ''a'', CHR 0xC2, CHR 0xA0, CHR 0xC2, CHR 0xA0, CHR ''b'']) \<and>
   clearText [CHR 0x0B, CHR 0xC2, CHR 0xA0, CHR ''a'', CHR ''b'', CHR 0x0B, CHR 0x0B] = ''ab''"
  by code_simp

text \<open>
  Claim C2 says that the normalizer is idempotent. Removing a tag can bring the two sides of
  a new tag together: from \<^verbatim>\<open><<b>b>\<close> the first application removes the inner
  \<^verbatim>\<open><b>\<close> and returns \<^verbatim>\<open><b>\<close>, which the second application removes.
\<close>

theorem clearText_not_idempotent:
  "clearText (clearText ''<<b>b>'') \<noteq> clearText ''<<b>b>''"
  by code_simp

text \<open>
  Claim C2, as amended. Normalizing a second time changes nothing exactly when the first
  output holds no bare tag, that is no substring \<^verbatim>\<open><\<close>, a non-empty name in which no
  character is \<^verbatim>\<open>a\<close>, \<^verbatim>\<open>i\<close>, space, \<^verbatim>\<open><\<close> or \<^verbatim>\<open>>\<close>, then \<^verbatim>\<open>>\<close>. In particular it
  changes nothing for every input in which \<^verbatim>\<open><\<close> does not occur.
\<close>

theorem clearText_idempotent_iff:
  "(clearText (clearText x) = clearText x \<longleftrightarrow> \<not> hasBareTag (clearText x)) \<and>
   (hasBareTag (clearText x) \<longleftrightarrow> (\<exists>u t v. clearText x = u @ t @ v \<and> bareTag t)) \<and>
   (CHR ''<'' \<notin> set x \<longrightarrow> clearText (clearText x) = clearText x)"
proof -
  have 1: "clearText (clearText x) = clearText x \<longleftrightarrow> \<not> hasBareTag (clearText x)"
    by (simp only: clearText_idempotent_stripped stripped_fixed_iff)
  have 2: "hasBareTag (clearText x) \<longleftrightarrow> (\<exists>u t v. clearText x = u @ t @ v \<and> bareTag t)"
    by (rule hasBareTag_iff)
  have 3: "clearText (clearText x) = clearText x" if "CHR ''<'' \<notin> set x"
  proof -
    from that set_clearText [of x] have "CHR ''<'' \<notin> set (clearText x)" by auto
    then have "\<not> hasBareTag (clearText x)" by (rule no_angle_no_tag)
    with 1 show ?thesis by simp
  qed
  from 1 2 3 show ?thesis by (intro conjI impI)
qed

theorem clearText_idempotent_witness:
  "CHR ''<'' \<notin> set ''  In the   end '' \<and>
   clearText (clearText ''  In the   end '') = clearText ''  In the   end '' \<and>
   \<not> hasBareTag (clearText ''<S>7</S> the <i>end</i>  <b>'') \<and>
   clearText (clearText ''<S>7</S> the <i>end</i>  <b>'') = clearText ''<S>7</S> the <i>end</i>  <b>''"
proof -
  have a: "CHR ''<'' \<notin> set ''  In the   end ''" by simp
  have b: "\<not> hasBareTag (clearText ''<S>7</S> the <i>end</i>  <b>'')" by code_simp
  from clearText_idempotent_iff [of "''  In the   end ''"] a
  have "clearText (clearText ''  In the   end '') = clearText ''  In the   end ''"
    by (simp only: simp_thms)
  moreover from clearText_idempotent_iff [of "''<S>7</S> the <i>end</i>  <b>''"] b
  have "clearText (clearText ''<S>7</S> the <i>end</i>  <b>'') = clearText ''<S>7</S> the <i>end</i>  <b>''"
    by (simp only: simp_thms)
  ultimately show ?thesis using a b by (simp only: simp_thms)
qed







section \<open>The claims about the handlers\<close>

text \<open>
  Claim C4. For a translation identifier that is not in the registry, a \<^verbatim>\<open>GET\<close> of
  \<^verbatim>\<open>/get-random-verse/{identifier}\<close> is answered with status 404 and a JSON body with the key
  \<^verbatim>\<open>error\<close>, and the handler neither looks the pool up nor queries a database. The
  identifier is one segment of the path: it is not empty and holds no \<^verbatim>\<open>/\<close>.
\<close>

theorem unknown_translation:
  assumes "Method r = ''GET''" "Path r = ''/get-random-verse/'' @ name"
    and "name \<noteq> []" "CHR ''/'' \<notin> set name" "map_of translations_map name = None"
  shows \<open>statusCode (fst (verseRoute dbPool queryRow r)) = 404 \<and>
         body (fst (verseRoute dbPool queryRow r)) =
           ''{"error":'' @ quoted True (''Translation '' @ [CHR 0x27] @ name @ [CHR 0x27] @ '' not found'')
             @ ''}'' @ [CHR 0x0A] \<and>
         snd (verseRoute dbPool queryRow r) = []\<close>
proof -
  have parts: "Split (Trim (Path r) CHR ''/'') CHR ''/'' = [''get-random-verse'', name]"
    unfolding assms(2) using assms(3,4) by (rule verse_path_parts)
  have "verseRoute dbPool queryRow r = getRandomVerseHandler dbPool queryRow corsHeaders r"
    using assms(1) by (intro verseRoute_eq) simp
  also have "\<dots> = (respondWithError corsHeaders
      (''Translation '' @ [CHR 0x27] @ name @ [CHR 0x27] @ '' not found'') 404, [])"
    using assms(5) by (simp add: getRandomVerseHandler_def parts)
  finally show ?thesis
    by (simp add: statusCode_def respondWithError_simps corsHeaders_simps Encode_errorJson)
qed

theorem unknown_translation_witness:
  \<open>statusCode (fst (verseRoute ([] :: (string \<times> nat) list) (\<lambda>db. Inl [])
      \<lparr>Method = ''GET'', Path = ''/get-random-verse/XYZ''\<rparr>)) = 404 \<and>
    snd (verseRoute ([] :: (string \<times> nat) list) (\<lambda>db. Inl [])
      \<lparr>Method = ''GET'', Path = ''/get-random-verse/XYZ''\<rparr>) = []\<close>
proof -
  have "map_of translations_map ''XYZ'' = None" by (simp add: translations_map_def)
  with unknown_translation [of "\<lparr>Method = ''GET'', Path = ''/get-random-verse/XYZ''\<rparr>" "''XYZ''"
      "[] :: (string \<times> nat) list" "\<lambda>db. Inl []"]
  show ?thesis by simp
qed

text \<open>
  Claim C3. For a translation identifier of the registry that has no entry in the pool, a
  \<^verbatim>\<open>GET\<close> of \<^verbatim>\<open>/get-random-verse/{name}\<close> is answered with status 503 and an error body,
  and \<^verbatim>\<open>/health\<close> answers with the list of exactly the identifiers of the pool, which does
  not hold that name. (A translation whose file is absent at startup has no entry in the
  pool: \<open>missing_file_not_pooled\<close>.)
\<close>

theorem known_but_unavailable:
  assumes "Method r = ''GET''" "Path r = ''/get-random-verse/'' @ name"
    and "name \<in> fst ` set translations_map" "map_of dbPool name = None"
    and "Method h = ''GET''"
  shows \<open>statusCode (fst (verseRoute dbPool queryRow r)) = 503 \<and>
         body (fst (verseRoute dbPool queryRow r)) =
           ''{"error":'' @ quoted True (''Database for translation '' @ [CHR 0x27] @ name @ [CHR 0x27] @
              '' is not available'') @ ''}'' @ [CHR 0x0A] \<and>
         statusCode (fst (healthRoute dbPool h)) = 200 \<and>
         body (fst (healthRoute dbPool h)) =
           Encode True (JObject [(''status'', JString ''ok''),
             (''translations'', JArray (map JString (availableTranslations dbPool)))]) \<and>
         set (availableTranslations dbPool) = dom (map_of dbPool) \<and>
         name \<notin> set (availableTranslations dbPool)\<close>
proof -
  from assms(3) have n: "name \<noteq> []" "CHR ''/'' \<notin> set name" "map_of translations_map name \<noteq> None"
    using registry_names by blast+
  have parts: "Split (Trim (Path r) CHR ''/'') CHR ''/'' = [''get-random-verse'', name]"
    unfolding assms(2) using n(1,2) by (rule verse_path_parts)
  have "verseRoute dbPool queryRow r = getRandomVerseHandler dbPool queryRow corsHeaders r"
    using assms(1) by (intro verseRoute_eq) simp
  also have "\<dots> = (respondWithError corsHeaders
      (''Database for translation '' @ [CHR 0x27] @ name @ [CHR 0x27] @ '' is not available'') 503,
      [PoolLookup name])"
    using n(3) assms(4) by (simp add: getRandomVerseHandler_def parts)
  finally have v: "fst (verseRoute dbPool queryRow r) = respondWithError corsHeaders
      (''Database for translation '' @ [CHR 0x27] @ name @ [CHR 0x27] @ '' is not available'') 503"
    by simp
  have "healthRoute dbPool h = healthHandler dbPool corsHeaders h"
    using assms(5) by (intro healthRoute_eq) simp
  then have hl: "statusCode (fst (healthRoute dbPool h)) = 200"
    "body (fst (healthRoute dbPool h)) =
       Encode True (JObject [(''status'', JString ''ok''),
         (''translations'', JArray (map JString (availableTranslations dbPool)))])"
    by (simp_all add: healthHandler_def statusCode_def Write_def WriteHeader_def headerSet_def
        corsHeaders_simps Let_def)
  have keys: "set (availableTranslations dbPool) = dom (map_of dbPool)"
    by (simp add: availableTranslations_def dom_map_of_conv_image_fst)
  with assms(4) have "name \<notin> set (availableTranslations dbPool)" by auto
  with v hl keys show ?thesis
    by (simp add: statusCode_def respondWithError_simps corsHeaders_simps Encode_errorJson)
qed

theorem known_but_unavailable_witness:
  \<open>fst (snd (initDatabases (world [''assets/RST+.Sqlite3''] [] []) translations_map)) =
      [(''KJV'', ''file:assets/KJV+.Sqlite3?mode=ro&cache=shared'')] \<and>
    statusCode (fst (verseRoute [(''KJV'', ''file:assets/KJV+.Sqlite3?mode=ro&cache=shared'')]
      (\<lambda>db. Inl []) \<lparr>Method = ''GET'', Path = ''/get-random-verse/RST''\<rparr>)) = 503 \<and>
    body (fst (healthRoute [(''KJV'', ''file:assets/KJV+.Sqlite3?mode=ro&cache=shared'')]
      \<lparr>Method = ''GET'', Path = ''/health''\<rparr>)) = ''{"status":"ok","translations":["KJV"]}'' @ [CHR 0x0A]\<close>
proof -
  have pool: "fst (snd (initDatabases (world [''assets/RST+.Sqlite3''] [] []) translations_map)) =
      [(''KJV'', ''file:assets/KJV+.Sqlite3?mode=ro&cache=shared'')]"
    by code_simp
  have enc: \<open>Encode True (JObject [(''status'', JString ''ok''),
      (''translations'', JArray (map JString (availableTranslations
         [(''KJV'', ''file:assets/KJV+.Sqlite3?mode=ro&cache=shared'')])))]) =
       ''{"status":"ok","translations":["KJV"]}'' @ [CHR 0x0A]\<close>
    by code_simp
  have "''RST'' \<in> fst ` set translations_map" by (simp add: translations_map_def)
  with known_but_unavailable [of "\<lparr>Method = ''GET'', Path = ''/get-random-verse/RST''\<rparr>" "''RST''"
      "[(''KJV'', ''file:assets/KJV+.Sqlite3?mode=ro&cache=shared'')]"
      "\<lparr>Method = ''GET'', Path = ''/health''\<rparr>" "\<lambda>db. Inl []"]
  have "statusCode (fst (verseRoute [(''KJV'', ''file:assets/KJV+.Sqlite3?mode=ro&cache=shared'')]
      (\<lambda>db. Inl []) \<lparr>Method = ''GET'', Path = ''/get-random-verse/RST''\<rparr>)) = 503"
    and "body (fst (healthRoute [(''KJV'', ''file:assets/KJV+.Sqlite3?mode=ro&cache=shared'')]
      \<lparr>Method = ''GET'', Path = ''/health''\<rparr>)) = Encode True (JObject [(''status'', JString ''ok''),
      (''translations'', JArray (map JString (availableTranslations
         [(''KJV'', ''file:assets/KJV+.Sqlite3?mode=ro&cache=shared'')])))])"
    by simp_all
  with pool enc show ?thesis by (simp only: simp_thms)
qed

text \<open>
  Claim C6 says that every handle acquired during initialization is released exactly once on
  every exit path. \<^verbatim>\<open>main\<close> registers the closing of the pool with \<^verbatim>\<open>defer\<close> after
  \<^verbatim>\<open>initDatabases\<close> has succeeded, and every way out of \<^verbatim>\<open>main\<close> is \<^verbatim>\<open>log.Fatalf\<close>,
  which exits without running deferred functions. With both files in place and the port
  taken, two handles are opened and none is closed; when \<^verbatim>\<open>sql.Open\<close> fails on the second
  entry, the handle of the first stays open as well.
\<close>

theorem main_leaves_handles_open:
  "main (world [] [] []) translations_map =
     ([Opened ''file:assets/KJV+.Sqlite3?mode=ro&cache=shared'',
       Opened ''file:assets/RST+.Sqlite3?mode=ro&cache=shared''], Fatal) \<and>
   main (world [] [''file:assets/RST+.Sqlite3?mode=ro&cache=shared''] []) translations_map =
     ([Opened ''file:assets/KJV+.Sqlite3?mode=ro&cache=shared''], Fatal)"
  by code_simp

text \<open>
  Claim C5 says that every response is JSON with the content type declared, and that HTML
  escaping is switched off, so that \<^verbatim>\<open>&\<close> is written as it is in every response. The
  handler calls \<^verbatim>\<open>SetEscapeHTML(false)\<close> on the encoder of the verse only;
  \<^verbatim>\<open>respondWithError\<close> and \<^verbatim>\<open>healthHandler\<close> write with \<^verbatim>\<open>json.NewEncoder(w).Encode\<close>,
  whose default escapes \<^verbatim>\<open><\<close>, \<^verbatim>\<open>>\<close> and \<^verbatim>\<open>&\<close>. The message of the 404 response holds
  the identifier of the path: for \<^verbatim>\<open>/get-random-verse/a&b\<close> the body has
  \<^verbatim>\<open>a\u0026b\<close> in the message and no \<^verbatim>\<open>&\<close>.
\<close>

theorem error_body_escaped:
  \<open>body (fst (verseRoute ([] :: (string \<times> nat) list) (\<lambda>db. Inl [])
      \<lparr>Method = ''GET'', Path = ''/get-random-verse/a&b''\<rparr>)) =
     ''{"error":"Translation '' @ [CHR 0x27] @ ''a'' @ [CHR 0x5C] @ ''u0026b'' @ [CHR 0x27] @
     '' not found"}'' @ [CHR 0x0A] \<and>
   CHR ''&'' \<notin> set (body (fst (verseRoute ([] :: (string \<times> nat) list) (\<lambda>db. Inl [])
      \<lparr>Method = ''GET'', Path = ''/get-random-verse/a&b''\<rparr>)))\<close>
  by code_simp

text \<open>
  Claim C5, as amended. To a request whose method is not \<^verbatim>\<open>OPTIONS\<close>, each of the two
  routes answers with the content type \<^verbatim>\<open>application/json\<close> and a body that is the output
  of the JSON encoder: on the verse route the error object with status 400, 404, 500 or 503,
  or the verse object with status 200; on the health route the health object with status 200.
  HTML escaping is off for the verse object only: the
  \<^verbatim>\<open><\<close>, \<^verbatim>\<open>>\<close> and \<^verbatim>\<open>&\<close> of that body are those of the translation name, the two book
  titles and the normalized text, in this order. The bodies of the error responses and of the
  health response hold none of the three characters. A request whose method is
  \<^verbatim>\<open>OPTIONS\<close> is answered by \<^verbatim>\<open>corsMiddleware\<close> with status 200, no body and no content
  type.
\<close>

theorem responses_json:
  "(Method r \<noteq> ''OPTIONS'' \<longrightarrow>
      map_of (header (fst (verseRoute dbPool queryRow r))) ''Content-Type'' = Some ''application/json'' \<and>
      ((\<exists>message.
          statusCode (fst (verseRoute dbPool queryRow r)) \<in> {400, 404, 500, 503} \<and>
          body (fst (verseRoute dbPool queryRow r)) = Encode True (errorJson message) \<and>
          filter htmlChar (body (fst (verseRoute dbPool queryRow r))) = []) \<or>
       (\<exists>name db found.
          map_of dbPool name = Some db \<and> queryRow db = Inr found \<and>
          statusCode (fst (verseRoute dbPool queryRow r)) = 200 \<and>
          body (fst (verseRoute dbPool queryRow r)) =
            Encode False (verseJson
              \<lparr>Translation = name, BookNumber = row_book_number found,
               BookTitle = row_long_name found, BookTitleShort = row_short_name found,
               Chapter = row_chapter found, Verse = row_verse found,
               Text = clearText (row_text found)\<rparr>) \<and>
          filter htmlChar (body (fst (verseRoute dbPool queryRow r))) =
            filter htmlChar (name @ row_long_name found @ row_short_name found @
              clearText (row_text found)))) \<and>
      map_of (header (fst (healthRoute dbPool r))) ''Content-Type'' = Some ''application/json'' \<and>
      statusCode (fst (healthRoute dbPool r)) = 200 \<and>
      body (fst (healthRoute dbPool r)) =
        Encode True (JObject [(''status'', JString ''ok''),
          (''translations'', JArray (map JString (availableTranslations dbPool)))]) \<and>
      filter htmlChar (body (fst (healthRoute dbPool r))) = []) \<and>
   (Method r = ''OPTIONS'' \<longrightarrow>
      map_of (header (fst (verseRoute dbPool queryRow r))) ''Content-Type'' = None \<and>
      statusCode (fst (verseRoute dbPool queryRow r)) = 200 \<and>
      body (fst (verseRoute dbPool queryRow r)) = [] \<and>
      map_of (header (fst (healthRoute dbPool r))) ''Content-Type'' = None \<and>
      statusCode (fst (healthRoute dbPool r)) = 200 \<and>
      body (fst (healthRoute dbPool r)) = [])"
proof (intro conjI impI)
  assume get: "Method r \<noteq> ''OPTIONS''"
  let ?V = "fst (verseRoute dbPool queryRow r)"
  let ?H = "fst (healthRoute dbPool r)"
  have V: "?V = fst (getRandomVerseHandler dbPool queryRow corsHeaders r)"
    by (rule arg_cong [OF verseRoute_eq [OF get]])
  have H: "?H = Write (Encode True (JObject [(''status'', JString ''ok''),
      (''translations'', JArray (map JString (availableTranslations dbPool)))]))
      (headerSet ''Content-Type'' ''application/json'' corsHeaders)"
    unfolding healthRoute_eq [OF get] by (simp add: healthHandler_def Let_def)
  from getRandomVerseHandler_cases [of dbPool queryRow corsHeaders r]
  consider message code where "code \<in> {400, 404, 500, 503 :: nat}"
      "?V = respondWithError corsHeaders message code"
    | name db found where "map_of dbPool name = Some db" "queryRow db = Inr found"
      "?V = Write (Encode False (verseJson
          \<lparr>Translation = name, BookNumber = row_book_number found,
           BookTitle = row_long_name found, BookTitleShort = row_short_name found,
           Chapter = row_chapter found, Verse = row_verse found,
           Text = clearText (row_text found)\<rparr>))
          (headerSet ''Content-Type'' ''application/json'' corsHeaders)"
    unfolding V by blast
  note cases = this
  show "map_of (header ?V) ''Content-Type'' = Some ''application/json''"
    by (rule cases) (simp_all only: respondWithError_simps written_simps)
  show "(\<exists>message.
          statusCode ?V \<in> {400, 404, 500, 503} \<and>
          body ?V = Encode True (errorJson message) \<and>
          filter htmlChar (body ?V) = []) \<or>
       (\<exists>name db found.
          map_of dbPool name = Some db \<and> queryRow db = Inr found \<and>
          statusCode ?V = 200 \<and>
          body ?V =
            Encode False (verseJson
              \<lparr>Translation = name, BookNumber = row_book_number found,
               BookTitle = row_long_name found, BookTitleShort = row_short_name found,
               Chapter = row_chapter found, Verse = row_verse found,
               Text = clearText (row_text found)\<rparr>) \<and>
          filter htmlChar (body ?V) =
            filter htmlChar (name @ row_long_name found @ row_short_name found @
              clearText (row_text found)))"
  proof (rule cases)
    fix message and code :: nat
    assume c: "code \<in> {400, 404, 500, 503}" "?V = respondWithError corsHeaders message code"
    have "statusCode ?V = code" "body ?V = Encode True (errorJson message)"
      unfolding c(2) by (simp_all add: statusCode_def respondWithError_simps corsHeaders_simps)
    moreover from this(2) have "filter htmlChar (body ?V) = []" by (simp only: Encode_html if_True)
    ultimately show ?thesis using c(1) by blast
  next
    fix name db and found :: row
    let ?verse = "\<lparr>Translation = name, BookNumber = row_book_number found,
           BookTitle = row_long_name found, BookTitleShort = row_short_name found,
           Chapter = row_chapter found, Verse = row_verse found,
           Text = clearText (row_text found)\<rparr>"
    assume c: "map_of dbPool name = Some db" "queryRow db = Inr found"
      "?V = Write (Encode False (verseJson ?verse))
          (headerSet ''Content-Type'' ''application/json'' corsHeaders)"
    have b: "statusCode ?V = 200" "body ?V = Encode False (verseJson ?verse)"
      unfolding c(3) by (simp_all only: written_simps)
    have "filter htmlChar (body ?V) = filter htmlChar (payload (verseJson ?verse))"
      unfolding b(2) by (simp only: Encode_html if_False)
    also have "\<dots> = filter htmlChar (name @ row_long_name found @ row_short_name found @
              clearText (row_text found))"
      by (simp only: payload_verseJson) simp
    finally show ?thesis using c(1,2) b by blast
  qed
  show "map_of (header ?H) ''Content-Type'' = Some ''application/json''"
    "statusCode ?H = 200"
    "body ?H = Encode True (JObject [(''status'', JString ''ok''),
          (''translations'', JArray (map JString (availableTranslations dbPool)))])"
    unfolding H by (simp_all only: written_simps)
  then show "filter htmlChar (body ?H) = []" by (simp only: Encode_html if_True)
next
  assume opt: "Method r = ''OPTIONS''"
  note eq = preflight_eq(1) [OF opt, of dbPool queryRow] preflight_eq(2) [OF opt, of dbPool]
  show "map_of (header (fst (verseRoute dbPool queryRow r))) ''Content-Type'' = None"
    "statusCode (fst (verseRoute dbPool queryRow r)) = 200"
    "body (fst (verseRoute dbPool queryRow r)) = []"
    "map_of (header (fst (healthRoute dbPool r))) ''Content-Type'' = None"
    "statusCode (fst (healthRoute dbPool r)) = 200"
    "body (fst (healthRoute dbPool r)) = []"
    unfolding eq fst_conv by (rule preflight_simps)+
qed

theorem responses_json_witness:
  \<open>Method \<lparr>Method = ''GET'', Path = ''/get-random-verse/KJV''\<rparr> \<noteq> ''OPTIONS'' \<and>
   map_of (header (fst (verseRoute [(''KJV'', 0 :: nat)]
     (\<lambda>db. Inr \<lparr>row_book_number = 100, row_chapter = 1, row_verse = 23,
        row_text = ''<S>1</S>Saul & Jonathan  <pb/>'', row_short_name = ''2Sam'',
        row_long_name = ''2 Samuel''\<rparr>)
     \<lparr>Method = ''GET'', Path = ''/get-random-verse/KJV''\<rparr>))) ''Content-Type'' =
     Some ''application/json'' \<and>
   body (fst (verseRoute [(''KJV'', 0 :: nat)]
     (\<lambda>db. Inr \<lparr>row_book_number = 100, row_chapter = 1, row_verse = 23,
        row_text = ''<S>1</S>Saul & Jonathan  <pb/>'', row_short_name = ''2Sam'',
        row_long_name = ''2 Samuel''\<rparr>)
     \<lparr>Method = ''GET'', Path = ''/get-random-verse/KJV''\<rparr>)) =
     ''{"translation":"KJV","book_number":100,"book_title":"2 Samuel","book_title_short":"2Sam","chapter":1,"verse":23,"text":"Saul & Jonathan"}''
       @ [CHR 0x0A] \<and>
   body (fst (healthRoute [(''KJV'', 0 :: nat)] \<lparr>Method = ''GET'', Path = ''/get-random-verse/KJV''\<rparr>)) =
     Encode True (JObject [(''status'', JString ''ok''), (''translations'', JArray [JString ''KJV''])]) \<and>
   Method \<lparr>Method = ''OPTIONS'', Path = ''/health''\<rparr> = ''OPTIONS'' \<and>
   map_of (header (fst (healthRoute [(''KJV'', 0 :: nat)] \<lparr>Method = ''OPTIONS'', Path = ''/health''\<rparr>)))
     ''Content-Type'' = None \<and>
   body (fst (healthRoute [(''KJV'', 0 :: nat)] \<lparr>Method = ''OPTIONS'', Path = ''/health''\<rparr>)) = []\<close>
proof -
  let ?Q = "\<lambda>db :: nat. (Inr \<lparr>row_book_number = 100, row_chapter = 1, row_verse = 23,
        row_text = ''<S>1</S>Saul & Jonathan  <pb/>'', row_short_name = ''2Sam'',
        row_long_name = ''2 Samuel''\<rparr> :: string + row)"
  let ?r = "\<lparr>Method = ''GET'', Path = ''/get-random-verse/KJV''\<rparr>"
  let ?o = "\<lparr>Method = ''OPTIONS'', Path = ''/health''\<rparr>"
  have get: "Method ?r \<noteq> ''OPTIONS''" by simp
  have opt: "Method ?o = ''OPTIONS''" by simp
  have b: \<open>body (fst (verseRoute [(''KJV'', 0 :: nat)] ?Q ?r)) =
     ''{"translation":"KJV","book_number":100,"book_title":"2 Samuel","book_title_short":"2Sam","chapter":1,"verse":23,"text":"Saul & Jonathan"}''
       @ [CHR 0x0A]\<close>
    by code_simp
  have a: "availableTranslations [(''KJV'', 0 :: nat)] = [''KJV'']"
    by (simp add: availableTranslations_def)
  from responses_json [of ?r "[(''KJV'', 0 :: nat)]" ?Q] get
  have h: "map_of (header (fst (verseRoute [(''KJV'', 0 :: nat)] ?Q ?r))) ''Content-Type'' =
     Some ''application/json''"
    "body (fst (healthRoute [(''KJV'', 0 :: nat)] ?r)) =
     Encode True (JObject [(''status'', JString ''ok''),
       (''translations'', JArray (map JString (availableTranslations [(''KJV'', 0 :: nat)])))])"
    by blast+
  from h(2) have "body (fst (healthRoute [(''KJV'', 0 :: nat)] ?r)) =
     Encode True (JObject [(''status'', JString ''ok''), (''translations'', JArray [JString ''KJV''])])"
    by (simp only: a list.map)
  note h(1) this
  moreover from responses_json [of ?o "[(''KJV'', 0 :: nat)]" ?Q] opt
  have "map_of (header (fst (healthRoute [(''KJV'', 0 :: nat)] ?o))) ''Content-Type'' = None"
    and "body (fst (healthRoute [(''KJV'', 0 :: nat)] ?o)) = []"
    by blast+
  ultimately show ?thesis using get opt b by (simp only: simp_thms)
qed

end
